theory Spec2Isabelle
  imports Complex_Main "HOL-Library.Word"
begin

section \<open>Buffers, strings and JSON values\<close>

text \<open>
  A Node \<open>Buffer\<close> is a list of bytes. A JavaScript string is represented by the
  sequence of its UTF-8 code units (HOL characters are bytes); this represents every
  string without lone surrogates, and the only string the class ever encodes, the output
  of \<open>JSON.stringify\<close>, has none. \<open>Buffer.from(s, 'utf8')\<close> then gives the code units as
  bytes.
\<close>

type_synonym byte = "8 word"
type_synonym buffer = "byte list"

definition Buffer_from_utf8 :: "string \<Rightarrow> buffer" where
  "Buffer_from_utf8 s = map of_char s"

text \<open>
  \<open>buf.toString('utf8')\<close> decodes any bytes at all: a well-formed UTF-8 sequence gives its
  character, and every maximal ill-formed run of bytes (a byte that cannot start a
  sequence, or the start of a sequence up to the byte that cannot continue it, or up to
  the end of the buffer) gives one U+FFFD. In terms of code units, \<open>utf8_step\<close> takes
  the byte \<open>b0\<close> and what follows it to the code units of the next character and the
  number of following bytes that character used up; U+FFFD is \<open>EF BF BD\<close>.
\<close>

definition utf8_replacement :: buffer where
  "utf8_replacement = [0xEF, 0xBF, 0xBD]"

definition continuation :: "byte \<Rightarrow> bool" where
  "continuation b \<longleftrightarrow> 0x80 \<le> b \<and> b \<le> 0xBF"

definition second_of_three :: "byte \<Rightarrow> byte \<Rightarrow> bool" where
  "second_of_three b0 b1 \<longleftrightarrow>
     (if b0 = 0xE0 then 0xA0 else 0x80) \<le> b1 \<and> b1 \<le> (if b0 = 0xED then 0x9F else 0xBF)"

definition second_of_four :: "byte \<Rightarrow> byte \<Rightarrow> bool" where
  "second_of_four b0 b1 \<longleftrightarrow>
     (if b0 = 0xF0 then 0x90 else 0x80) \<le> b1 \<and> b1 \<le> (if b0 = 0xF4 then 0x8F else 0xBF)"

definition utf8_step :: "byte \<Rightarrow> buffer \<Rightarrow> buffer \<times> nat" where
  "utf8_step b0 bs =
     (if b0 \<le> 0x7F then ([b0], 0)
      else if 0xC2 \<le> b0 \<and> b0 \<le> 0xDF then
        (case bs of
           b1 # r1 \<Rightarrow> if continuation b1 then ([b0, b1], 1) else (utf8_replacement, 0)
         | [] \<Rightarrow> (utf8_replacement, 0))
      else if 0xE0 \<le> b0 \<and> b0 \<le> 0xEF then
        (case bs of
           b1 # r1 \<Rightarrow>
             if \<not> second_of_three b0 b1 then (utf8_replacement, 0)
             else
               (case r1 of
                  b2 # r2 \<Rightarrow>
                    if continuation b2 then ([b0, b1, b2], 2) else (utf8_replacement, 1)
                | [] \<Rightarrow> (utf8_replacement, 1))
         | [] \<Rightarrow> (utf8_replacement, 0))
      else if 0xF0 \<le> b0 \<and> b0 \<le> 0xF4 then
        (case bs of
           b1 # r1 \<Rightarrow>
             if \<not> second_of_four b0 b1 then (utf8_replacement, 0)
             else
               (case r1 of
                  b2 # r2 \<Rightarrow>
                    if \<not> continuation b2 then (utf8_replacement, 1)
                    else
                      (case r2 of
                         b3 # r3 \<Rightarrow>
                           if continuation b3 then ([b0, b1, b2, b3], 3)
                           else (utf8_replacement, 2)
                       | [] \<Rightarrow> (utf8_replacement, 2))
                | [] \<Rightarrow> (utf8_replacement, 1))
         | [] \<Rightarrow> (utf8_replacement, 0))
      else (utf8_replacement, 0))"

fun utf8_scrub :: "buffer \<Rightarrow> buffer" where
  "utf8_scrub [] = []"
| "utf8_scrub (b0 # bs) = fst (utf8_step b0 bs) @ utf8_scrub (drop (snd (utf8_step b0 bs)) bs)"

definition toString_utf8 :: "buffer \<Rightarrow> string" where
  "toString_utf8 b = map (\<lambda>x. char_of (unat x)) (utf8_scrub b)"

text \<open>Bytes are well-formed UTF-8 when decoding them replaces nothing.\<close>

definition utf8_well_formed :: "buffer \<Rightarrow> bool" where
  "utf8_well_formed b \<longleftrightarrow> utf8_scrub b = b"

text \<open>
  \<open>buf.slice(start, end)\<close>: a negative index counts from the end of the buffer, both
  indices are clamped to the buffer, and an end before the start gives the empty buffer.
\<close>

definition Buffer_slice :: "buffer \<Rightarrow> int \<Rightarrow> int \<Rightarrow> buffer" where
  "Buffer_slice b start end =
     (let len = int (length b);
          s = (if start < 0 then max (len + start) 0 else min start len);
          e = (if end < 0 then max (len + end) 0 else min end len)
      in take (nat (e - s)) (drop (nat s) b))"

text \<open>
  \<open>buf.readInt32BE(0)\<close>: the first four bytes, most significant first, read as a
  two's complement 32-bit integer. Node raises a RangeError on a shorter buffer; the
  class calls it only under the test \<open>lengthBuffer.length === 4\<close>, and the model gives 0
  on the inputs it is never called on.
\<close>

definition uint32BE :: "byte \<Rightarrow> byte \<Rightarrow> byte \<Rightarrow> byte \<Rightarrow> int" where
  "uint32BE b0 b1 b2 b3 = uint b0 * 2 ^ 24 + uint b1 * 2 ^ 16 + uint b2 * 2 ^ 8 + uint b3"

fun readInt32BE :: "buffer \<Rightarrow> int" where
  "readInt32BE (b0 # b1 # b2 # b3 # rest) =
     (let u = uint32BE b0 b1 b2 b3 in if 2 ^ 31 \<le> u then u - 2 ^ 32 else u)"
| "readInt32BE _ = 0"

text \<open>
  \<open>buf.writeInt32BE(value, 0)\<close> on a fresh 4-byte buffer: a RangeError (here \<open>None\<close>)
  when the value is not a signed 32-bit integer, else its four bytes, most significant
  first.
\<close>

definition writeInt32BE :: "int \<Rightarrow> buffer option" where
  "writeInt32BE v =
     (if - (2 ^ 31) \<le> v \<and> v < 2 ^ 31
      then Some [word_of_int (v div 2 ^ 24), word_of_int (v div 2 ^ 16),
                 word_of_int (v div 2 ^ 8), word_of_int v]
      else None)"

text \<open>
  The values \<open>JSON.parse\<close> produces. An object is the list of its own properties, each
  name once, so that reading a property is looking its name up in the list. Numbers are
  only ever tested for being zero by this class.
\<close>

datatype json =
    JNull
  | JBool bool
  | JNum rat
  | JStr string
  | JArr "json list"
  | JObj "(string \<times> json) list"

text \<open>
  A JavaScript value as this class sees one: \<open>None\<close> is \<open>undefined\<close>. An exception is
  represented by its message.
\<close>

type_synonym jsval = "json option"
type_synonym js_error = string

text \<open>
  \<open>JSON.parse\<close> and \<open>JSON.stringify\<close> are library functions: the model takes them as
  parameters. \<open>Inl m\<close> is a thrown SyntaxError with message \<open>m\<close>.
\<close>

type_synonym json_parse = "string \<Rightarrow> js_error + json"
type_synonym json_stringify = "json \<Rightarrow> string"

text \<open>
  Reading the property \<open>k\<close> of a value, for the names this class reads (\<open>id\<close>,
  \<open>error\<close>, \<open>result\<close>, \<open>message\<close>): a TypeError on \<open>null\<close> and \<open>undefined\<close>, the member
  of an object, and \<open>undefined\<close> on every other value.
\<close>

fun get_prop :: "jsval \<Rightarrow> string \<Rightarrow> js_error + jsval" where
  "get_prop None k =
     Inl (''Cannot read properties of undefined (reading '' @ [CHR 0x27] @ k @ [CHR 0x27] @ '')'')"
| "get_prop (Some JNull) k =
     Inl (''Cannot read properties of null (reading '' @ [CHR 0x27] @ k @ [CHR 0x27] @ '')'')"
| "get_prop (Some (JObj members)) k = Inr (map_of members k)"
| "get_prop (Some v) k = Inr None"

fun truthy :: "jsval \<Rightarrow> bool" where
  "truthy None = False"
| "truthy (Some JNull) = False"
| "truthy (Some (JBool b)) = b"
| "truthy (Some (JNum n)) = (n \<noteq> 0)"
| "truthy (Some (JStr s)) = (s \<noteq> [])"
| "truthy (Some (JArr xs)) = True"
| "truthy (Some (JObj members)) = True"

text \<open>The operator \<open>a || b\<close>.\<close>

definition js_or :: "jsval \<Rightarrow> jsval \<Rightarrow> jsval" where
  "js_or a b = (if truthy a then a else b)"

section \<open>The connection and what it acts on\<close>

text \<open>
  A promise is named by a number. The callback that \<open>sendCommand\<close> registers closes over
  the \<open>resolve\<close> and \<open>reject\<close> of its promise and is otherwise the same code for every
  request, so the registry maps a request identifier to the promise of its callback.
  Every call of \<open>resolve\<close> or \<open>reject\<close> is recorded in \<open>settled\<close>, every call of
  \<open>console.error\<close> in \<open>console\<close>, every \<open>socket.write\<close> in \<open>written\<close>, every
  \<open>socket.connect\<close> and \<open>socket.end\<close> in \<open>socketCalls\<close>, and \<open>timers\<close> holds the
  closures handed to \<open>setTimeout\<close> that have not fired yet.
\<close>

datatype outcome = Resolved jsval | Rejected jsval

datatype log_entry =
    InvalidMessageLength int
  | ErrorParsingResponse js_error string
  | FailedToConnect
  | ConnectionError

datatype socket_call = SocketConnect | SocketEnd

record timer =
  timer_requestId :: string
  timer_command :: string
  timer_promise :: nat
  timer_delay :: int

record connection =
  host :: string
  port :: int
  isConnected :: bool
  responseCallbacks :: "string \<rightharpoonup> nat"
  lengthBuffer :: buffer
  messageBuffer :: buffer
  expectedLength :: "int option"
  settled :: "(nat \<times> outcome) list"
  console :: "log_entry list"
  written :: "buffer list"
  socketCalls :: "socket_call list"
  timers :: "timer list"
  promises :: nat

text \<open>The constructor: field initialisers, a fresh socket, the listeners.\<close>

definition new_connection :: "string \<Rightarrow> int \<Rightarrow> connection" where
  "new_connection h p =
     \<lparr> host = h, port = p, isConnected = False, responseCallbacks = Map.empty, lengthBuffer = [],
       messageBuffer = [], expectedLength = None, settled = [], console = [],
       written = [], socketCalls = [], timers = [], promises = 0 \<rparr>"

text \<open>The socket listeners for \<open>connect\<close>, \<open>close\<close> and \<open>error\<close>.\<close>

definition on_connect :: "connection \<Rightarrow> connection" where
  "on_connect c = c\<lparr>isConnected := True\<rparr>"

definition on_close :: "connection \<Rightarrow> connection" where
  "on_close c = c\<lparr>isConnected := False\<rparr>"

definition on_error :: "connection \<Rightarrow> connection" where
  "on_error c = c\<lparr>console := console c @ [ConnectionError], isConnected := False\<rparr>"

definition resetBuffers :: "connection \<Rightarrow> connection" where
  "resetBuffers c = c\<lparr>lengthBuffer := [], messageBuffer := [], expectedLength := None\<rparr>"

section \<open>Correlation: the callback and handleResponse\<close>

text \<open>
  The callback registered by \<open>sendCommand\<close>, on the payload it is called with: which of
  \<open>resolve\<close> and \<open>reject\<close> it calls, and with what. \<open>Rejected m\<close> is
  \<open>reject(new Error(m))\<close>; the message of that Error is \<open>m\<close> converted to a string.
\<close>

definition callback_body :: "json \<Rightarrow> js_error + outcome" where
  "callback_body response =
     (case get_prop (Some response) ''error'' of
        Inl e \<Rightarrow> Inl e
      | Inr err \<Rightarrow>
          if truthy err then
            (case get_prop err ''message'' of
               Inl e \<Rightarrow> Inl e
             | Inr m \<Rightarrow> Inr (Rejected (js_or m (Some (JStr ''Unknown error from Revit'')))))
          else
            (case get_prop (Some response) ''result'' of
               Inl e \<Rightarrow> Inl e
             | Inr r \<Rightarrow> Inr (Resolved r)))"

definition callback :: "json_parse \<Rightarrow> string \<Rightarrow> outcome" where
  "callback parse responseData =
     (case (case parse responseData of Inl e \<Rightarrow> Inl e | Inr response \<Rightarrow> callback_body response) of
        Inl e \<Rightarrow> Rejected (Some (JStr (''Failed to parse response: '' @ e)))
      | Inr out \<Rightarrow> out)"

text \<open>
  \<open>responseCallbacks.get(v)\<close> and \<open>responseCallbacks.delete(v)\<close>: the keys are strings and a
  Map compares keys without conversion, so only a string finds or removes anything.
\<close>

fun callbacks_get :: "(string \<rightharpoonup> nat) \<Rightarrow> jsval \<Rightarrow> nat option" where
  "callbacks_get cbs (Some (JStr k)) = cbs k"
| "callbacks_get cbs v = None"

fun callbacks_delete :: "(string \<rightharpoonup> nat) \<Rightarrow> jsval \<Rightarrow> (string \<rightharpoonup> nat)" where
  "callbacks_delete cbs (Some (JStr k)) = cbs(k := None)"
| "callbacks_delete cbs v = cbs"

text \<open>
  The lookup in \<open>handleResponse\<close>: the callback registered under \<open>requestId\<close>, if there is
  one, is called with the payload and its registration deleted.
\<close>

definition deliver :: "json_parse \<Rightarrow> connection \<Rightarrow> jsval \<Rightarrow> string \<Rightarrow> connection" where
  "deliver parse c requestId responseData =
     (case callbacks_get (responseCallbacks c) requestId of
        Some p \<Rightarrow>
          c\<lparr>settled := settled c @ [(p, callback parse responseData)],
            responseCallbacks := callbacks_delete (responseCallbacks c) requestId\<rparr>
      | None \<Rightarrow> c)"

text \<open>The \<open>try\<close> block of \<open>handleResponse\<close>; \<open>Inl\<close> is the exception it ends with.\<close>

definition handleResponse_try :: "json_parse \<Rightarrow> connection \<Rightarrow> string \<Rightarrow> js_error + connection" where
  "handleResponse_try parse c responseData =
     (case parse responseData of
        Inl e \<Rightarrow> Inl e
      | Inr response \<Rightarrow>
          (case get_prop (Some response) ''id'' of
             Inl e \<Rightarrow> Inl e
           | Inr ident \<Rightarrow>
               (let requestId = js_or ident (Some (JStr ''default''))
                in Inr (deliver parse c requestId responseData))))"

text \<open>
  \<open>handleResponse\<close>: its \<open>catch\<close> block reports the exception and the payload with two
  calls of \<open>console.error\<close>, recorded as one entry.
\<close>

definition handleResponse :: "json_parse \<Rightarrow> connection \<Rightarrow> string \<Rightarrow> connection" where
  "handleResponse parse c responseData =
     (case handleResponse_try parse c responseData of
        Inl e \<Rightarrow> c\<lparr>console := console c @ [ErrorParsingResponse e responseData]\<rparr>
      | Inr c' \<Rightarrow> c')"

section \<open>The framer: processData\<close>

text \<open>
  One pass through the body of the \<open>while\<close> loop. \<open>Stop\<close> is the \<open>return\<close> after an
  invalid length; \<open>Next\<close> carries the payload handed to \<open>handleResponse\<close> in this pass,
  if there was one, the connection and the offset after the pass.
\<close>

datatype pass = Stop connection | Next "string option" connection int

definition read_payload :: "json_parse \<Rightarrow> connection \<Rightarrow> buffer \<Rightarrow> int \<Rightarrow> pass" where
  "read_payload parse c data offset =
     (case expectedLength c of
        None \<Rightarrow> Next None c offset
      | Some expected \<Rightarrow>
          (let needed = expected - int (length (messageBuffer c));
               available = int (length data) - offset;
               toCopy = min needed available;
               c1 = c\<lparr>messageBuffer := messageBuffer c @ Buffer_slice data offset (offset + toCopy)\<rparr>;
               offset1 = offset + toCopy
           in if int (length (messageBuffer c1)) = expected then
                (let jsonStr = toString_utf8 (messageBuffer c1)
                 in Next (Some jsonStr) (resetBuffers (handleResponse parse c1 jsonStr)) offset1)
              else Next None c1 offset1))"

definition processData_pass :: "json_parse \<Rightarrow> connection \<Rightarrow> buffer \<Rightarrow> int \<Rightarrow> pass" where
  "processData_pass parse c data offset =
     (if expectedLength c = None then
        (let needed = 4 - int (length (lengthBuffer c));
             available = int (length data) - offset;
             toCopy = min needed available;
             c1 = c\<lparr>lengthBuffer := lengthBuffer c @ Buffer_slice data offset (offset + toCopy)\<rparr>;
             offset1 = offset + toCopy
         in if length (lengthBuffer c1) = 4 then
              (let expected = readInt32BE (lengthBuffer c1);
                   c2 = c1\<lparr>expectedLength := Some expected, lengthBuffer := []\<rparr>
               in if expected \<le> 0 \<or> expected > 10 * 1024 * 1024 then
                    Stop (resetBuffers (c2\<lparr>console := console c2 @ [InvalidMessageLength expected]\<rparr>))
                  else read_payload parse c2 data offset1)
            else read_payload parse c1 data offset1)
      else read_payload parse c data offset)"

text \<open>
  The loop. It returns the payloads handed to \<open>handleResponse\<close>, in order, and the
  connection; \<open>None\<close> is a loop that never ends.
\<close>

partial_function (option) processData_loop ::
  "json_parse \<Rightarrow> connection \<Rightarrow> buffer \<Rightarrow> int \<Rightarrow> string list \<Rightarrow> (string list \<times> connection) option"
where
  "processData_loop parse c data offset emitted =
     (if offset < int (length data) then
        (case processData_pass parse c data offset of
           Stop c' \<Rightarrow> Some (emitted, c')
         | Next payload c' offset' \<Rightarrow>
             processData_loop parse c' data offset'
               (case payload of None \<Rightarrow> emitted | Some s \<Rightarrow> emitted @ [s]))
      else Some (emitted, c))"

definition processData :: "json_parse \<Rightarrow> connection \<Rightarrow> buffer \<Rightarrow> (string list \<times> connection) option" where
  "processData parse c data = processData_loop parse c data 0 []"

text \<open>The socket's \<open>data\<close> listener, called for each chunk that arrives, in order.\<close>

fun feed :: "json_parse \<Rightarrow> connection \<Rightarrow> buffer list \<Rightarrow> (string list \<times> connection) option" where
  "feed parse c [] = Some ([], c)"
| "feed parse c (chunk # chunks) =
     (case processData parse c chunk of
        None \<Rightarrow> None
      | Some (out, c') \<Rightarrow>
          (case feed parse c' chunks of
             None \<Rightarrow> None
           | Some (out', c'') \<Rightarrow> Some (out @ out', c'')))"

section \<open>The sender: connect, generateRequestId, sendCommand and its timer\<close>

text \<open>
  What a call of \<open>sendCommand\<close> reads from outside the connection: the clock
  (\<open>Date.now()\<close>, a whole number of milliseconds), the text of \<open>Math.random().toString()\<close>,
  and whether \<open>socket.connect\<close> throws.
\<close>

record env =
  now :: int
  random :: string
  connectThrows :: bool

definition connect :: "env \<Rightarrow> connection \<Rightarrow> bool \<times> connection" where
  "connect e c =
     (if isConnected c then (True, c)
      else if connectThrows e then (False, c\<lparr>console := console c @ [FailedToConnect]\<rparr>)
      else (True, c\<lparr>socketCalls := socketCalls c @ [SocketConnect]\<rparr>))"

definition disconnect :: "connection \<Rightarrow> connection" where
  "disconnect c = c\<lparr>socketCalls := socketCalls c @ [SocketEnd], isConnected := False\<rparr>"

text \<open>
  \<open>n.toString()\<close> for a whole number \<open>n\<close> of absolute value below \<open>10^21\<close>, which every
  value of \<open>Date.now()\<close> is: its decimal digits behind its sign.
\<close>

function decimal :: "int \<Rightarrow> string" where
  "decimal n =
     (let last_digit = char_of (48 + n mod 10)
      in if n div 10 \<le> 0 then [last_digit] else decimal (n div 10) @ [last_digit])"
  by pat_completeness auto
termination
  by (relation "measure nat") auto

declare decimal.simps [simp del]

definition string_of_int :: "int \<Rightarrow> string" where
  "string_of_int i = (if i < 0 then CHR ''-'' # decimal (- i) else decimal i)"

text \<open>\<open>s.substring(a, b)\<close> for \<open>0 \<le> a \<le> b\<close>.\<close>

definition substring :: "string \<Rightarrow> nat \<Rightarrow> nat \<Rightarrow> string" where
  "substring s a b = take (b - a) (drop a s)"

definition generateRequestId :: "env \<Rightarrow> string" where
  "generateRequestId e = string_of_int (now e) @ substring (random e) 2 8"

text \<open>
  The framing in \<open>sendCommand\<close>: the UTF-8 bytes of the text behind their length,
  written as four bytes. \<open>None\<close> is the RangeError of \<open>writeInt32BE\<close>.
\<close>

definition frame :: "string \<Rightarrow> buffer option" where
  "frame commandString =
     (let messageBody = Buffer_from_utf8 commandString
      in case writeInt32BE (int (length messageBody)) of
           None \<Rightarrow> None
         | Some lengthPrefix \<Rightarrow> Some (lengthPrefix @ messageBody))"

text \<open>
  \<open>sendCommand(command, params)\<close>: the promise it returns and the connection after the
  promise's executor has run. The \<open>catch\<close> rejects the promise with the exception; the
  only statement of the \<open>try\<close> block that can throw here is \<open>writeInt32BE\<close>.
\<close>

definition sendCommand ::
  "json_stringify \<Rightarrow> env \<Rightarrow> connection \<Rightarrow> string \<Rightarrow> json \<Rightarrow> nat \<times> connection" where
  "sendCommand stringify e c command params =
     (let p = promises c;
          c0 = c\<lparr>promises := Suc p\<rparr>;
          c1 = (if \<not> isConnected c0 then snd (connect e c0) else c0);
          requestId = generateRequestId e;
          commandObj = JObj [(''jsonrpc'', JStr ''2.0''), (''method'', JStr command),
                             (''params'', params), (''id'', JStr requestId)];
          c2 = c1\<lparr>responseCallbacks := (responseCallbacks c1)(requestId \<mapsto> p)\<rparr>;
          commandString = stringify commandObj
      in case frame commandString of
           None \<Rightarrow>
             (p, c2\<lparr>settled := settled c2 @ [(p, Rejected (Some (JStr ''ERR_OUT_OF_RANGE'')))]\<rparr>)
         | Some message \<Rightarrow>
             (p, c2\<lparr>written := written c2 @ [message],
                    timers := timers c2 @
                      [\<lparr>timer_requestId = requestId, timer_command = command,
                        timer_promise = p, timer_delay = 120000\<rparr>]\<rparr>))"

text \<open>
  A JavaScript call \<open>sendCommand(command, ...args)\<close>: \<open>params\<close> is the first of \<open>args\<close>,
  or \<open>{}\<close> when that is missing or \<open>undefined\<close>; the function has no further parameter,
  so any further argument is bound to nothing.
\<close>

definition sendCommand_call ::
  "json_stringify \<Rightarrow> env \<Rightarrow> connection \<Rightarrow> string \<Rightarrow> jsval list \<Rightarrow> nat \<times> connection" where
  "sendCommand_call stringify e c command args =
     sendCommand stringify e c command (case args of Some params # _ \<Rightarrow> params | _ \<Rightarrow> JObj [])"

text \<open>The function handed to \<open>setTimeout\<close>, when it runs.\<close>

definition timeoutFires :: "connection \<Rightarrow> timer \<Rightarrow> connection" where
  "timeoutFires c t =
     (if responseCallbacks c (timer_requestId t) \<noteq> None then
        c\<lparr>responseCallbacks := (responseCallbacks c)(timer_requestId t := None),
          settled := settled c @
            [(timer_promise t,
              Rejected (Some (JStr (''Command timed out after 2 minutes: '' @ timer_command t))))]\<rparr>
      else c)"

section \<open>The states a connection can be in\<close>

text \<open>
  A connection is constructed, and then changes only through its socket listeners, its
  public methods and its timers.
\<close>

inductive reachable :: "json_parse \<Rightarrow> json_stringify \<Rightarrow> connection \<Rightarrow> bool"
  for parse :: json_parse and stringify :: json_stringify
where
  r_new: "reachable parse stringify (new_connection h p)"
| r_connect_event: "reachable parse stringify c \<Longrightarrow> reachable parse stringify (on_connect c)"
| r_close_event: "reachable parse stringify c \<Longrightarrow> reachable parse stringify (on_close c)"
| r_error_event: "reachable parse stringify c \<Longrightarrow> reachable parse stringify (on_error c)"
| r_data_event: "reachable parse stringify c \<Longrightarrow> processData parse c data = Some (out, c') \<Longrightarrow>
     reachable parse stringify c'"
| r_connect: "reachable parse stringify c \<Longrightarrow> reachable parse stringify (snd (connect e c))"
| r_disconnect: "reachable parse stringify c \<Longrightarrow> reachable parse stringify (disconnect c)"
| r_sendCommand: "reachable parse stringify c \<Longrightarrow>
     reachable parse stringify (snd (sendCommand stringify e c command params))"
| r_timeout: "reachable parse stringify c \<Longrightarrow> t \<in> set (timers c) \<Longrightarrow>
     reachable parse stringify (timeoutFires (c\<lparr>timers := remove1 t (timers c)\<rparr>) t)"

text \<open>The framer between two frames, and the two-stage condition on its accumulators.\<close>

definition idle :: "connection \<Rightarrow> bool" where
  "idle c \<longleftrightarrow> lengthBuffer c = [] \<and> messageBuffer c = [] \<and> expectedLength c = None"

definition framer_inv :: "connection \<Rightarrow> bool" where
  "framer_inv c =
     (case expectedLength c of
        None \<Rightarrow> length (lengthBuffer c) < 4 \<and> messageBuffer c = []
      | Some expected \<Rightarrow>
          lengthBuffer c = [] \<and> int (length (messageBuffer c)) < expected)"

text \<open>
  A frame as the wire format has it: four bytes holding the unsigned big-endian length
  \<open>L\<close> of what follows, \<open>0 < L \<le> 10 MiB\<close>, then exactly \<open>L\<close> bytes; and the text it carries.
\<close>

definition valid_frame :: "buffer \<Rightarrow> bool" where
  "valid_frame f =
     (case f of
        b0 # b1 # b2 # b3 # body \<Rightarrow>
          uint32BE b0 b1 b2 b3 = int (length body) \<and> 0 < length body \<and>
          length body \<le> 10 * 1024 * 1024
      | _ \<Rightarrow> False)"

definition payload_of :: "buffer \<Rightarrow> string" where
  "payload_of f = toString_utf8 (drop 4 f)"

text \<open>The framer has taken in the bytes \<open>q\<close> since the last frame ended.\<close>

definition accumulated :: "connection \<Rightarrow> buffer \<Rightarrow> bool" where
  "accumulated c q =
     (if length q < 4 then expectedLength c = None \<and> lengthBuffer c = q \<and> messageBuffer c = []
      else expectedLength c = Some (readInt32BE q) \<and> lengthBuffer c = [] \<and>
           messageBuffer c = drop 4 q)"

text \<open>
  What holds of a connection between two calls: the two-stage condition, and no
  registration under the key \<open>default\<close> or under the empty key.
\<close>

definition conn_inv :: "connection \<Rightarrow> bool" where
  "conn_inv c \<longleftrightarrow>
     framer_inv c \<and> responseCallbacks c ''default'' = None \<and> responseCallbacks c [] = None"

section \<open>Example data\<close>

text \<open>
  One request, used by the concrete instances below: \<open>sendCommand("ping", {})\<close> on a new
  connection, at a time when the clock reads 1700000000000 and \<open>Math.random()\<close> gives
  0.123456789. \<open>example_stringify\<close> and \<open>example_parse\<close> give the values of
  \<open>JSON.stringify\<close> and \<open>JSON.parse\<close> on the values and texts of these instances
  (the last case of \<open>example_parse\<close> is for a response cut off after \<open>"result":\<close>), and
  are applied to nothing else there.
\<close>

definition example_env :: env where
  "example_env = \<lparr>now = 1700000000000, random = ''0.123456789'', connectThrows = False\<rparr>"

definition example_id :: string where
  "example_id = ''1700000000000123456''"

definition example_stringify :: json_stringify where
  \<open>example_stringify v =
     (if v = JObj [(''jsonrpc'', JStr ''2.0''), (''method'', JStr ''ping''),
                   (''params'', JObj []), (''id'', JStr example_id)]
      then ''{"jsonrpc":"2.0","method":"ping","params":{},"id":"1700000000000123456"}''
      else if v = JObj [(''jsonrpc'', JStr ''2.0''), (''method'', JStr ''slow''),
                   (''params'', JObj []), (''id'', JStr example_id)]
      then ''{"jsonrpc":"2.0","method":"slow","params":{},"id":"1700000000000123456"}''
      else ''null'')\<close>

definition example_parse :: json_parse where
  \<open>example_parse s =
     (if s = ''{"id":"1700000000000123456","result":{"pong":true}}'' then
        Inr (JObj [(''id'', JStr example_id), (''result'', JObj [(''pong'', JBool True)])])
      else if s = ''{"id":"1700000000000123456","error":{"message":"boom"}}'' then
        Inr (JObj [(''id'', JStr example_id), (''error'', JObj [(''message'', JStr ''boom'')])])
      else if s = ''{"id":"1700000000000123456","error":{"message":""}}'' then
        Inr (JObj [(''id'', JStr example_id), (''error'', JObj [(''message'', JStr [])])])
      else if s = ''{"id":"99","result":1}'' then
        Inr (JObj [(''id'', JStr ''99''), (''result'', JNum 1)])
      else if s = ''{"result":1}'' then
        Inr (JObj [(''result'', JNum 1)])
      else if s = ''null'' then
        Inr JNull
      else if s = ''{}'' then
        Inr (JObj [])
      else if s = ''1'' then
        Inr (JNum 1)
      else Inl ''Unexpected end of JSON input'')\<close>

definition example_connection :: connection where
  "example_connection =
     snd (sendCommand example_stringify example_env (new_connection ''localhost'' 8080)
            ''ping'' (JObj []))"

definition example_timer :: timer where
  "example_timer =
     \<lparr>timer_requestId = example_id, timer_command = ''ping'', timer_promise = 0,
      timer_delay = 120000\<rparr>"

section \<open>The framer, pass by pass\<close>

lemma slice_drop:
  assumes "k \<le> length data"
  shows "Buffer_slice data (int k) (int k + int n) = take n (drop k data)"
  using assms by (simp add: Buffer_slice_def Let_def min_def nat_diff_distrib' nat_add_distrib)

lemma slice_drop_prefix:
  assumes "drop k data = ch @ rest" "k \<le> length data"
  shows "Buffer_slice data (int k) (int k + int (length ch)) = ch"
  using assms by (simp add: slice_drop)

lemma resetBuffers_handleResponse:
  "resetBuffers (handleResponse parse (c\<lparr>messageBuffer := m\<rparr>) s) = resetBuffers (handleResponse parse c s)"
  by (simp add: resetBuffers_def handleResponse_def handleResponse_try_def deliver_def Let_def
      split: sum.splits option.splits)

lemma read_payload_partial:
  assumes "expectedLength c = Some L" "int (length (messageBuffer c)) + int (length ch) < L"
    "drop k data = ch" "k \<le> length data"
  shows "read_payload parse c data (int k) =
    Next None (c\<lparr>messageBuffer := messageBuffer c @ ch\<rparr>) (int (length data))"
proof -
  have len: "length data = k + length ch" using assms(3,4)
    by (metis add_diff_cancel_left' le_Suc_ex length_drop)
  have "Buffer_slice data (int k) (int k + int (length ch)) = ch"
    using slice_drop_prefix[of k data ch "[]"] assms by simp
  then show ?thesis using assms len
    by (simp add: read_payload_def Let_def min_def)
qed

lemma read_payload_complete:
  assumes "expectedLength c = Some L" "int (length (messageBuffer c)) + int (length ch) = L"
    "drop k data = ch @ rest" "k \<le> length data"
  shows "read_payload parse c data (int k) =
    Next (Some (toString_utf8 (messageBuffer c @ ch)))
      (resetBuffers (handleResponse parse c (toString_utf8 (messageBuffer c @ ch))))
      (int (k + length ch))"
proof -
  have len: "length data = k + length ch + length rest" using assms(3,4)
    by (metis add.assoc add_diff_cancel_left' le_Suc_ex length_drop length_append)
  have "Buffer_slice data (int k) (int k + int (length ch)) = ch"
    using slice_drop_prefix[of k data ch rest] assms by simp
  moreover have L: "L = int (length (messageBuffer c)) + int (length ch)" using assms(2) by simp
  ultimately show ?thesis using assms(1) len
    by (simp add: read_payload_def Let_def min_def resetBuffers_handleResponse L)
qed


lemma resetBuffers_handleResponse3:
  "resetBuffers (handleResponse parse (c\<lparr>expectedLength := e, lengthBuffer := l, messageBuffer := m\<rparr>) s)
     = resetBuffers (handleResponse parse c s)"
  by (simp add: resetBuffers_def handleResponse_def handleResponse_try_def deliver_def Let_def
      split: sum.splits option.splits)

lemma read_payload_none:
  "expectedLength c = None \<Longrightarrow> read_payload parse c data offset = Next None c offset"
  by (simp add: read_payload_def)

lemma pass_payload:
  "expectedLength c = Some L \<Longrightarrow> processData_pass parse c data offset = read_payload parse c data offset"
  by (simp add: processData_pass_def)

lemma pass_length_partial:
  assumes "expectedLength c = None" "length (lengthBuffer c) + length ch < 4"
    "drop k data = ch" "k \<le> length data"
  shows "processData_pass parse c data (int k) =
    Next None (c\<lparr>lengthBuffer := lengthBuffer c @ ch\<rparr>) (int (length data))"
proof -
  have len: "length data = k + length ch" using assms(3,4)
    by (metis add_diff_cancel_left' le_Suc_ex length_drop)
  have "Buffer_slice data (int k) (int k + int (length ch)) = ch"
    using slice_drop_prefix[of k data ch "[]"] assms by simp
  then show ?thesis using assms(1,2) len
    by (simp add: processData_pass_def Let_def min_def read_payload_none)
qed

lemma pass_length_complete:
  assumes "expectedLength c = None" "length (lengthBuffer c) + length ch = 4"
    "drop k data = ch @ rest" "k \<le> length data"
  shows "processData_pass parse c data (int k) =
    (let expected = readInt32BE (lengthBuffer c @ ch) in
     if expected \<le> 0 \<or> expected > 10 * 1024 * 1024
     then Stop (resetBuffers (c\<lparr>console := console c @ [InvalidMessageLength expected]\<rparr>))
     else read_payload parse (c\<lparr>expectedLength := Some expected, lengthBuffer := []\<rparr>) data
            (int (k + length ch)))"
proof -
  have len: "length data = k + length ch + length rest" using assms(3,4)
    by (metis add.assoc add_diff_cancel_left' le_Suc_ex length_drop length_append)
  have sl: "Buffer_slice data (int k) (int k + int (length ch)) = ch"
    using slice_drop_prefix[of k data ch rest] assms by simp
  have n: "4 - int (length (lengthBuffer c)) = int (length ch)" using assms(2) by linarith
  show ?thesis using assms(1,2) len sl
    by (simp add: processData_pass_def Let_def min_def n resetBuffers_def)
qed

lemma loop_end: "\<not> offset < int (length data) \<Longrightarrow> processData_loop parse c data offset em = Some (em, c)"
  by (subst processData_loop.simps) simp

lemma loop_step:
  "offset < int (length data) \<Longrightarrow> processData_loop parse c data offset em =
     (case processData_pass parse c data offset of
        Stop c' \<Rightarrow> Some (em, c')
      | Next payload c' offset' \<Rightarrow>
          processData_loop parse c' data offset'
            (case payload of None \<Rightarrow> em | Some s \<Rightarrow> em @ [s]))"
  by (subst processData_loop.simps) simp

lemma drop_len: "drop k data = xs \<Longrightarrow> k \<le> length data \<Longrightarrow> length data = k + length xs"
  by (metis add_diff_cancel_left' le_Suc_ex length_drop)

lemma loop_payload_partial:
  assumes "expectedLength c = Some L" "int (length (messageBuffer c)) + int (length ch) < L"
    "drop k data = ch" "k \<le> length data"
  shows "processData_loop parse c data (int k) em =
    Some (em, c\<lparr>messageBuffer := messageBuffer c @ ch\<rparr>)"
proof (cases "ch = []")
  case True
  then have "length data = k" using drop_len[OF assms(3,4)] by simp
  then show ?thesis using True by (simp add: loop_end)
next
  case False
  then have "int k < int (length data)" using drop_len[OF assms(3,4)] by simp
  then show ?thesis
    using read_payload_partial[OF assms, of parse] assms(1)
    by (simp add: loop_step pass_payload loop_end)
qed

lemma loop_payload_complete:
  assumes "expectedLength c = Some L" "int (length (messageBuffer c)) + int (length ch) = L"
    "drop k data = ch @ rest" "k \<le> length data" "ch \<noteq> []"
  shows "processData_loop parse c data (int k) em =
    processData_loop parse (resetBuffers (handleResponse parse c (toString_utf8 (messageBuffer c @ ch))))
      data (int (k + length ch)) (em @ [toString_utf8 (messageBuffer c @ ch)])"
proof -
  have "k < length data" using drop_len[OF assms(3,4)] assms(5) by (cases ch) auto
  then have "int k < int (length data)" by simp
  then show ?thesis
    using read_payload_complete[OF assms(1-4), of parse] assms(1)
    by (simp add: loop_step pass_payload)
qed

lemma loop_length_partial:
  assumes "expectedLength c = None" "length (lengthBuffer c) + length ch < 4"
    "drop k data = ch" "k \<le> length data"
  shows "processData_loop parse c data (int k) em =
    Some (em, c\<lparr>lengthBuffer := lengthBuffer c @ ch\<rparr>)"
proof (cases "ch = []")
  case True
  then have "length data = k" using drop_len[OF assms(3,4)] by simp
  then show ?thesis using True by (simp add: loop_end)
next
  case False
  then have "int k < int (length data)" using drop_len[OF assms(3,4)] by simp
  then show ?thesis
    using pass_length_partial[OF assms, of parse]
    by (simp add: loop_step loop_end)
qed

lemma loop_length_then_partial:
  assumes "expectedLength c = None" "messageBuffer c = []"
    "length (lengthBuffer c) < 4" "length (lengthBuffer c) + length pfx = 4"
    "L = readInt32BE (lengthBuffer c @ pfx)" "0 < L" "L \<le> 10 * 1024 * 1024"
    "int (length bdy) < L" "drop k data = pfx @ bdy" "k \<le> length data"
  shows "processData_loop parse c data (int k) em =
    Some (em, c\<lparr>expectedLength := Some L, lengthBuffer := [], messageBuffer := bdy\<rparr>)"
proof -
  let ?c2 = "c\<lparr>expectedLength := Some L, lengthBuffer := []\<rparr>"
  have lt: "int k < int (length data)" using drop_len[OF assms(9,10)] assms(3,4) by simp
  have d2: "drop (k + length pfx) data = bdy"
    using assms(9) by (metis add.commute append_eq_conv_conj drop_drop)
  have k2: "k + length pfx \<le> length data" using drop_len[OF assms(9,10)] by simp
  have p: "processData_pass parse c data (int k) = read_payload parse ?c2 data (int (k + length pfx))"
    using pass_length_complete[OF assms(1,4,9,10), of parse] assms(5,6,7) by (simp add: Let_def)
  have "read_payload parse ?c2 data (int (k + length pfx)) =
      Next None (?c2\<lparr>messageBuffer := messageBuffer ?c2 @ bdy\<rparr>) (int (length data))"
    by (rule read_payload_partial[where L=L]) (use assms(2,8) d2 k2 in simp_all)
  then show ?thesis using lt p assms(2)
    by (simp add: loop_step loop_end)
qed

lemma loop_length_then_complete:
  assumes "expectedLength c = None" "messageBuffer c = []"
    "length (lengthBuffer c) < 4" "length (lengthBuffer c) + length pfx = 4"
    "L = readInt32BE (lengthBuffer c @ pfx)" "0 < L" "L \<le> 10 * 1024 * 1024"
    "int (length bdy) = L" "drop k data = pfx @ bdy @ rest" "k \<le> length data"
  shows "processData_loop parse c data (int k) em =
    processData_loop parse (resetBuffers (handleResponse parse c (toString_utf8 bdy)))
      data (int (k + length pfx + length bdy)) (em @ [toString_utf8 bdy])"
proof -
  let ?c2 = "c\<lparr>expectedLength := Some L, lengthBuffer := []\<rparr>"
  have lt: "int k < int (length data)" using drop_len[OF assms(9,10)] assms(3,4) by simp
  have d2: "drop (k + length pfx) data = bdy @ rest"
    using assms(9) by (metis add.commute append_eq_conv_conj drop_drop)
  have k2: "k + length pfx \<le> length data" using drop_len[OF assms(9,10)] by simp
  have p: "processData_pass parse c data (int k) = read_payload parse ?c2 data (int (k + length pfx))"
    using pass_length_complete[OF assms(1,4) assms(9,10), of parse] assms(5,6,7) by (simp add: Let_def)
  have "read_payload parse ?c2 data (int (k + length pfx)) =
      Next (Some (toString_utf8 (messageBuffer ?c2 @ bdy)))
        (resetBuffers (handleResponse parse ?c2 (toString_utf8 (messageBuffer ?c2 @ bdy))))
        (int (k + length pfx + length bdy))"
    by (rule read_payload_complete[where L=L and rest=rest]) (use assms(2,8) d2 k2 in simp_all)
  moreover have "resetBuffers (handleResponse parse ?c2 s) = resetBuffers (handleResponse parse c s)" for s
    using resetBuffers_handleResponse3[where c=c and e="Some L" and l="[]" and m="messageBuffer c" and s=s and parse=parse] by simp
  ultimately show ?thesis using lt p assms(2)
    by (simp add: loop_step)
qed

section \<open>Frames cut into chunks\<close>

lemma readInt32BE_append: "length pre = 4 \<Longrightarrow> readInt32BE (pre @ x) = readInt32BE pre"
  by (cases pre rule: readInt32BE.cases) auto

lemma valid_frameE:
  assumes "valid_frame f"
  obtains pre body where "f = pre @ body" "length pre = 4" "readInt32BE pre = int (length body)"
    "0 < length body" "length body \<le> 10 * 1024 * 1024"
proof -
  from assms obtain b0 b1 b2 b3 body where f: "f = b0 # b1 # b2 # b3 # body"
    and u: "uint32BE b0 b1 b2 b3 = int (length body)"
    and l: "0 < length body" "length body \<le> 10 * 1024 * 1024"
    by (auto simp: valid_frame_def split: list.splits)
  have "readInt32BE [b0, b1, b2, b3] = int (length body)"
    using u l by (simp add: Let_def)
  then show ?thesis using f l that[of "[b0, b1, b2, b3]" body] by simp
qed

lemma idle_accumulated: "idle c \<longleftrightarrow> accumulated c []"
  by (auto simp: idle_def accumulated_def)

lemma chunk_partial:
  assumes vf: "valid_frame f" and acc: "accumulated c q" and split: "q @ ch @ r = f" "r \<noteq> []"
    and d: "drop k data = ch" "k \<le> length data"
  shows "\<exists>c'. processData_loop parse c data (int k) em = Some (em, c') \<and> accumulated c' (q @ ch)"
proof -
  from vf obtain pre body where f: "f = pre @ body" and pre: "length pre = 4"
    and L: "readInt32BE pre = int (length body)" and pos: "0 < length body"
    and le: "length body \<le> 10 * 1024 * 1024" by (rule valid_frameE)
  have len: "length q + length ch + length r = 4 + length body"
    using split(1) f pre by (metis length_append add.assoc)
  show ?thesis
  proof (cases "length q < 4")
    case False
    then have q4: "4 \<le> length q" by simp
    have tq: "take 4 q = pre" using split(1) f pre q4
      by (metis append_eq_conv_conj take_append diff_is_0_eq take0 append_Nil2)
    then have q: "q = pre @ drop 4 q" by (metis append_take_drop_id)
    have rq: "readInt32BE q = int (length body)"
      using readInt32BE_append[OF pre, of "drop 4 q"] q L by simp
    have el: "expectedLength c = Some (int (length body))" and lb: "lengthBuffer c = []"
      and mb: "messageBuffer c = drop 4 q"
      using acc False rq by (auto simp: accumulated_def)
    have "int (length (messageBuffer c)) + int (length ch) < int (length body)"
      using mb len q4 split(2) by (cases r) auto
    from loop_payload_partial[OF el this d, of parse em]
    have "processData_loop parse c data (int k) em = Some (em, c\<lparr>messageBuffer := messageBuffer c @ ch\<rparr>)" .
    moreover have "readInt32BE (q @ ch) = int (length body)"
      using readInt32BE_append[OF pre, of "drop 4 q @ ch"] q L by (metis append.assoc)
    then have "accumulated (c\<lparr>messageBuffer := messageBuffer c @ ch\<rparr>) (q @ ch)"
      using q4 el lb mb by (simp add: accumulated_def)
    ultimately show ?thesis by blast
  next
    case True
    then have el: "expectedLength c = None" and lb: "lengthBuffer c = q" and mb: "messageBuffer c = []"
      using acc by (auto simp: accumulated_def)
    show ?thesis
    proof (cases "length q + length ch < 4")
      case short: True
      from loop_length_partial[OF el _ d, of parse em] short lb
      have "processData_loop parse c data (int k) em = Some (em, c\<lparr>lengthBuffer := q @ ch\<rparr>)"
        by simp
      moreover have "accumulated (c\<lparr>lengthBuffer := q @ ch\<rparr>) (q @ ch)"
        using short el mb by (simp add: accumulated_def)
      ultimately show ?thesis by blast
    next
      case long: False
      define ch1 where "ch1 = take (4 - length q) ch"
      define ch2 where "ch2 = drop (4 - length q) ch"
      have ch: "ch = ch1 @ ch2" by (simp add: ch1_def ch2_def)
      have l1: "length q + length ch1 = 4" using long True by (simp add: ch1_def)
      have "(q @ ch1) @ (ch2 @ r) = pre @ body" using split(1) f ch by simp
      then have qc: "q @ ch1 = pre" and rest: "ch2 @ r = body"
        using l1 pre by (metis append_eq_append_conv length_append)+
      have l2: "int (length ch2) < int (length body)"
        using rest split(2) by (cases r) auto
      have "processData_loop parse c data (int k) em =
        Some (em, c\<lparr>expectedLength := Some (int (length body)), lengthBuffer := [], messageBuffer := ch2\<rparr>)"
        by (rule loop_length_then_partial[where pfx=ch1])
          (use el mb lb True l1 qc L pos le l2 d ch in simp_all)
      moreover have "readInt32BE (q @ ch) = int (length body)"
        using readInt32BE_append[OF pre, of ch2] qc ch L by (metis append.assoc)
      then have "accumulated (c\<lparr>expectedLength := Some (int (length body)), lengthBuffer := [],
          messageBuffer := ch2\<rparr>) (q @ ch)"
        using long l1 ch by (simp add: accumulated_def)
      ultimately show ?thesis by blast
    qed
  qed
qed

lemma chunk_complete:
  assumes vf: "valid_frame f" and acc: "accumulated c q" and split: "q @ ch = f" "ch \<noteq> []"
    and d: "drop k data = ch @ rest" "k \<le> length data"
  shows "\<exists>c'. idle c' \<and> processData_loop parse c data (int k) em =
    processData_loop parse c' data (int (k + length ch)) (em @ [payload_of f])"
proof -
  from vf obtain pre body where f: "f = pre @ body" and pre: "length pre = 4"
    and L: "readInt32BE pre = int (length body)" and pos: "0 < length body"
    and le: "length body \<le> 10 * 1024 * 1024" by (rule valid_frameE)
  have pf: "payload_of f = toString_utf8 body" using f pre by (simp add: payload_of_def)
  have len: "length q + length ch = 4 + length body"
    using split(1) f pre by (metis length_append)
  have idle_reset: "idle (resetBuffers x)" for x by (simp add: idle_def resetBuffers_def)
  show ?thesis
  proof (cases "length q < 4")
    case False
    then have q4: "4 \<le> length q" by simp
    have tq: "take 4 q = pre" using split(1) f pre q4
      by (metis append_eq_conv_conj take_append diff_is_0_eq take0 append_Nil2)
    then have q: "q = pre @ drop 4 q" by (metis append_take_drop_id)
    have rq: "readInt32BE q = int (length body)"
      using readInt32BE_append[OF pre, of "drop 4 q"] q L by simp
    have el: "expectedLength c = Some (int (length body))" and lb: "lengthBuffer c = []"
      and mb: "messageBuffer c = drop 4 q"
      using acc False rq by (auto simp: accumulated_def)
    have "pre @ drop 4 q @ ch = pre @ body" using q split(1) f by (metis append.assoc)
    then have body: "messageBuffer c @ ch = body" using mb by simp
    have "int (length (messageBuffer c)) + int (length ch) = int (length body)"
      using mb len q4 by simp
    from loop_payload_complete[OF el this d split(2), of parse em] body pf idle_reset
    show ?thesis by auto
  next
    case True
    then have el: "expectedLength c = None" and lb: "lengthBuffer c = q" and mb: "messageBuffer c = []"
      using acc by (auto simp: accumulated_def)
    define ch1 where "ch1 = take (4 - length q) ch"
    define ch2 where "ch2 = drop (4 - length q) ch"
    have ch: "ch = ch1 @ ch2" by (simp add: ch1_def ch2_def)
    have l1: "length q + length ch1 = 4" using len True by (simp add: ch1_def)
    have "(q @ ch1) @ ch2 = pre @ body" using split(1) f ch by simp
    then have qc: "q @ ch1 = pre" and rest: "ch2 = body"
      using l1 pre by (metis append_eq_append_conv length_append)+
    have "processData_loop parse c data (int k) em =
      processData_loop parse (resetBuffers (handleResponse parse c (toString_utf8 ch2)))
        data (int (k + length ch1 + length ch2)) (em @ [toString_utf8 ch2])"
      by (rule loop_length_then_complete[where pfx=ch1 and L="int (length body)" and rest=rest])
        (use el mb lb True l1 qc L pos le rest d ch in simp_all)
    moreover have "k + length ch1 + length ch2 = k + length ch" using ch by simp
    ultimately have "processData_loop parse c data (int k) em =
      processData_loop parse (resetBuffers (handleResponse parse c (toString_utf8 ch2)))
        data (int (k + length ch)) (em @ [payload_of f])"
      using rest pf by (simp only:)
    then show ?thesis using idle_reset by blast
  qed
qed

lemma frames_then_partial:
  assumes "\<forall>f \<in> set fs. valid_frame f" "accumulated c []"
    "drop k data = concat fs @ part" "k \<le> length data"
    "part = [] \<or> (\<exists>f r. valid_frame f \<and> part @ r = f \<and> r \<noteq> [])"
  shows "\<exists>c'. processData_loop parse c data (int k) em = Some (em @ map payload_of fs, c') \<and>
    accumulated c' part"
  using assms
proof (induction fs arbitrary: c k em)
  case Nil
  show ?case
  proof (cases "part = []")
    case True
    then have "length data = k" using drop_len[of k data "[]"] Nil by simp
    then show ?thesis using True Nil by (simp add: loop_end)
  next
    case False
    then obtain f r where "valid_frame f" "part @ r = f" "r \<noteq> []" using Nil by blast
    from chunk_partial[OF this(1) Nil(2), of part r k data parse em] this Nil
    show ?thesis by simp
  qed
next
  case (Cons f fs)
  have vf: "valid_frame f" using Cons.prems by simp
  then have ne: "f \<noteq> []" by (auto simp: valid_frame_def)
  have d: "drop k data = f @ (concat fs @ part)" using Cons.prems by simp
  from chunk_complete[OF vf Cons.prems(2) _ ne d Cons.prems(4), of parse em]
  obtain c1 where c1: "idle c1" and eq: "processData_loop parse c data (int k) em =
    processData_loop parse c1 data (int (k + length f)) (em @ [payload_of f])" by auto
  have d2: "drop (k + length f) data = concat fs @ part"
    using d by (metis add.commute append_eq_conv_conj drop_drop)
  have k2: "k + length f \<le> length data" using drop_len[OF d Cons.prems(4)] by simp
  from Cons.IH[of c1 "k + length f" "em @ [payload_of f]"] Cons.prems c1 d2 k2
  obtain c' where "processData_loop parse c1 data (int (k + length f)) (em @ [payload_of f]) =
      Some ((em @ [payload_of f]) @ map payload_of fs, c')" "accumulated c' part"
    by (auto simp: idle_accumulated)
  then show ?case using eq by simp
qed

lemma feed_empty: "concat chunks = [] \<Longrightarrow> feed parse c chunks = Some ([], c)"
  by (induction chunks) (auto simp: processData_def loop_end)

lemma feed_one_frame:
  assumes "valid_frame f" "accumulated c q" "q @ concat chunks = f" "length q < length f"
  shows "\<exists>c'. feed parse c chunks = Some ([payload_of f], c') \<and> idle c'"
  using assms
proof (induction chunks arbitrary: c q)
  case Nil
  then show ?case by simp
next
  case (Cons ch chunks)
  show ?case
  proof (cases "length (q @ ch) < length f")
    case True
    then have r: "concat chunks \<noteq> []" using Cons.prems(3) by auto
    have "q @ ch @ concat chunks = f" using Cons.prems(3) by simp
    from chunk_partial[OF Cons.prems(1,2) this r, of 0 ch parse "[]"]
    obtain c1 where p: "processData parse c ch = Some ([], c1)" and a: "accumulated c1 (q @ ch)"
      by (auto simp: processData_def)
    from Cons.IH[OF Cons.prems(1) a _ True] Cons.prems(3)
    obtain c' where "feed parse c1 chunks = Some ([payload_of f], c')" "idle c'" by auto
    then show ?thesis using p by simp
  next
    case False
    have "length (q @ ch) + length (concat chunks) = length f"
      using Cons.prems(3) by (metis append.assoc concat.simps(2) length_append)
    then have "length (concat chunks) = 0" using False by linarith
    then have e: "concat chunks = []" by (rule length_0_conv[THEN iffD1])
    have "q @ ch @ concat chunks = f" using Cons.prems(3) by simp
    then have qf: "q @ ch = f" by (simp only: e append_Nil2)
    have ne: "ch \<noteq> []" using qf Cons.prems(4) by auto
    from chunk_complete[OF Cons.prems(1,2) qf ne, of 0 ch "[]" parse "[]"]
    obtain c1 where "idle c1" "processData parse c ch = Some ([payload_of f], c1)"
      by (auto simp: processData_def loop_end)
    then show ?thesis using feed_empty[OF e, of parse c1] by simp
  qed
qed

section \<open>Framing claims\<close>

lemma utf8_roundtrip:
  assumes "utf8_well_formed (Buffer_from_utf8 s)"
  shows "toString_utf8 (Buffer_from_utf8 s) = s"
proof -
  have "char_of (unat (of_char c :: byte)) = c" for c
  proof -
    have "(of_char c :: byte) = of_nat (of_char c)" by (simp add: of_nat_of_char)
    then have "unat (of_char c :: byte) = (of_char c :: nat)"
      by (simp add: unat_of_nat take_bit_eq_mod)
    then show ?thesis by simp
  qed
  moreover have "utf8_scrub (Buffer_from_utf8 s) = Buffer_from_utf8 s"
    using assms by (simp add: utf8_well_formed_def)
  ultimately show ?thesis by (simp add: toString_utf8_def Buffer_from_utf8_def comp_def)
qed

lemma uint32BE_write:
  assumes "0 \<le> n" "n < 2 ^ 32"
  shows "uint32BE (word_of_int (n div 2 ^ 24)) (word_of_int (n div 2 ^ 16))
     (word_of_int (n div 2 ^ 8)) (word_of_int n) = n"
proof -
  define n1 where "n1 = n div 256"
  define n2 where "n2 = n1 div 256"
  define n3 where "n3 = n2 div 256"
  have u: "uint (word_of_int k :: byte) = k mod 256" for k
    by (simp add: uint_word_of_int)
  have d1: "n div 2 ^ 8 = n1" by (simp add: n1_def)
  have d2: "n div 2 ^ 16 = n2"
    using zdiv_zmult2_eq[of 256 n 256] by (simp add: n1_def n2_def)
  have d3: "n div 2 ^ 24 = n3"
    using zdiv_zmult2_eq[of 256 n 65536] zdiv_zmult2_eq[of 256 n 256]
    by (simp add: n1_def n2_def n3_def)
  have e0: "n = 256 * n1 + n mod 256" by (simp add: n1_def)
  have e1: "n1 = 256 * n2 + n1 mod 256" by (simp add: n2_def)
  have e2: "n2 = 256 * n3 + n2 mod 256" by (simp add: n3_def)
  have "0 \<le> n3" "n3 < 256" using assms d3 by (simp_all add: div_less_iff_less_mult flip: d3)
  then have e3: "n3 mod 256 = n3" by simp
  show ?thesis
    unfolding uint32BE_def u d1 d2 d3 e3 using e0 e1 e2 by simp
qed

lemma frame_valid:
  assumes "0 < length s" "length s \<le> 10 * 1024 * 1024"
  shows "\<exists>f. frame s = Some f \<and> valid_frame f \<and> drop 4 f = Buffer_from_utf8 s"
proof -
  let ?n = "int (length s)"
  have n: "0 \<le> ?n" "?n < 2 ^ 31" "?n < 2 ^ 32" using assms by simp_all
  have ln: "length (Buffer_from_utf8 s) = length s" by (simp add: Buffer_from_utf8_def)
  have "frame s = Some ([word_of_int (?n div 2 ^ 24), word_of_int (?n div 2 ^ 16),
                 word_of_int (?n div 2 ^ 8), word_of_int ?n] @ Buffer_from_utf8 s)"
    using n by (simp add: frame_def writeInt32BE_def ln)
  moreover have "valid_frame ([word_of_int (?n div 2 ^ 24), word_of_int (?n div 2 ^ 16),
                 word_of_int (?n div 2 ^ 8), word_of_int ?n] @ Buffer_from_utf8 s)"
    using uint32BE_write[OF n(1,3)] assms ln by (auto simp add: valid_frame_def)
  ultimately show ?thesis by auto
qed

text \<open>
  Claim C1 (framing round trip). Take a text \<open>s\<close> (a string without lone surrogates: its
  code units are well-formed UTF-8) whose UTF-8 encoding has between 1 byte and 10 MiB,
  let \<open>f\<close> be the message \<open>sendCommand\<close> writes for it (the four length bytes, then the
  text), and cut \<open>f\<close> into chunks in any way at all, empty chunks, single bytes and the
  whole message included. Handing the chunks to \<open>processData\<close> one after the other,
  starting between two frames, every call returns, \<open>handleResponse\<close> is called exactly
  once over all of them, with \<open>s\<close>, and the framer ends between two frames again.
\<close>

theorem framing_round_trip:
  assumes "0 < length s" "length s \<le> 10 * 1024 * 1024"
    and "utf8_well_formed (Buffer_from_utf8 s)"
    and "frame s = Some f" "concat chunks = f" "idle c"
  shows "\<exists>c'. feed parse c chunks = Some ([s], c') \<and> idle c'"
proof -
  from frame_valid[OF assms(1,2)] assms(4) have vf: "valid_frame f"
    and body: "drop 4 f = Buffer_from_utf8 s"
    by auto
  have p: "payload_of f = s"
    using body utf8_roundtrip[OF assms(3)] by (simp add: payload_of_def)
  have "f \<noteq> []" using vf by (auto simp: valid_frame_def)
  then have "length [] < length f" by simp
  from feed_one_frame[OF vf _ _ this, of c chunks parse] assms(5,6) p
  show ?thesis by (simp add: idle_accumulated)
qed

theorem framing_round_trip_witness:
  "0 < length ''{}'' \<and> length ''{}'' \<le> 10 * 1024 * 1024 \<and>
   utf8_well_formed (Buffer_from_utf8 ''{}'') \<and>
   frame ''{}'' = Some [0, 0, 0, 2, 123, 125] \<and>
   concat [[0, 0, 0, 2, 123, 125]] = [0, 0, 0, 2, 123, 125 :: byte] \<and>
   concat [[0], [0], [0], [2], [123], [125]] = [0, 0, 0, 2, 123, 125 :: byte] \<and>
   concat [[0, 0], [0, 2, 123], [], [125]] = [0, 0, 0, 2, 123, 125 :: byte] \<and>
   idle (new_connection ''localhost'' 8080) \<and>
   (\<exists>c'. feed example_parse (new_connection ''localhost'' 8080) [[0, 0, 0, 2, 123, 125]]
         = Some ([''{}''], c') \<and> idle c') \<and>
   (\<exists>c'. feed example_parse (new_connection ''localhost'' 8080) [[0], [0], [0], [2], [123], [125]]
         = Some ([''{}''], c') \<and> idle c') \<and>
   (\<exists>c'. feed example_parse (new_connection ''localhost'' 8080) [[0, 0], [0, 2, 123], [], [125]]
         = Some ([''{}''], c') \<and> idle c')"
proof -
  have h1: "0 < length ''{}''" and h2: "length ''{}'' \<le> 10 * 1024 * 1024" by simp_all
  have wf: "utf8_well_formed (Buffer_from_utf8 ''{}'')" by code_simp
  have h3: "frame ''{}'' = Some [0, 0, 0, 2, 123, 125]"
    by (simp add: frame_def Buffer_from_utf8_def writeInt32BE_def)
  have w: "concat [[0, 0, 0, 2, 123, 125]] = [0, 0, 0, 2, 123, 125 :: byte]"
    and b: "concat [[0], [0], [0], [2], [123], [125]] = [0, 0, 0, 2, 123, 125 :: byte]"
    and m: "concat [[0, 0], [0, 2, 123], [], [125]] = [0, 0, 0, 2, 123, 125 :: byte]"
    by simp_all
  have h5: "idle (new_connection ''localhost'' 8080)" by (simp add: idle_def new_connection_def)
  from framing_round_trip[OF h1 h2 wf h3 w h5, of example_parse]
    framing_round_trip[OF h1 h2 wf h3 b h5, of example_parse]
    framing_round_trip[OF h1 h2 wf h3 m h5, of example_parse] h1 h2 wf h3 w b m h5
  show ?thesis by blast
qed

lemma valid_frame_nonempty: "valid_frame f \<Longrightarrow> f \<noteq> []"
  by (auto simp: valid_frame_def)

lemma two_frames_split_first:
  assumes v1: "valid_frame f1" and v2: "valid_frame f2" and i: "idle c" and k: "k < length f1"
  shows "\<exists>c1 c2. processData parse c (take k (f1 @ f2)) = Some ([], c1) \<and>
     processData parse c1 (drop k (f1 @ f2)) = Some ([payload_of f1, payload_of f2], c2) \<and> idle c2"
proof -
  have t: "take k (f1 @ f2) = take k f1" and d: "drop k (f1 @ f2) = drop k f1 @ f2"
    using k by simp_all
  have r: "drop k f1 \<noteq> []" using k by simp
  from chunk_partial[OF v1 _ _ r, of c "[]" "take k f1" 0 "take k f1" parse "[]"] i
  obtain c1 where p1: "processData parse c (take k f1) = Some ([], c1)"
    and a1: "accumulated c1 (take k f1)"
    by (auto simp: processData_def idle_accumulated)
  from chunk_complete[OF v1 a1 _ r, of 0 "drop k f1 @ f2" f2 parse "[]"]
  obtain c' where i': "idle c'" and e: "processData_loop parse c1 (drop k f1 @ f2) 0 [] =
      processData_loop parse c' (drop k f1 @ f2) (int (length (drop k f1))) [payload_of f1]"
    by auto
  from frames_then_partial[of "[f2]" c' "length (drop k f1)" "drop k f1 @ f2" "[]" parse "[payload_of f1]"]
    v2 i'
  obtain c2 where "processData_loop parse c' (drop k f1 @ f2) (int (length (drop k f1))) [payload_of f1]
      = Some ([payload_of f1, payload_of f2], c2)" "accumulated c2 []"
    by (auto simp: idle_accumulated)
  then show ?thesis using p1 e t d by (auto simp: processData_def idle_accumulated)
qed

lemma two_frames_split_second:
  assumes v1: "valid_frame f1" and v2: "valid_frame f2" and i: "idle c"
    and k: "length f1 \<le> k" "k < length f1 + length f2"
  shows "\<exists>c1 c2. processData parse c (take k (f1 @ f2)) = Some ([payload_of f1], c1) \<and>
     processData parse c1 (drop k (f1 @ f2)) = Some ([payload_of f2], c2) \<and> idle c2"
proof -
  define j where "j = k - length f1"
  have j: "j < length f2" using k by (simp add: j_def)
  have t: "take k (f1 @ f2) = f1 @ take j f2" and d: "drop k (f1 @ f2) = drop j f2"
    using k by (simp_all add: j_def)
  have r: "drop j f2 \<noteq> []" using j by simp
  have "\<exists>f r. valid_frame f \<and> take j f2 @ r = f \<and> r \<noteq> []"
    using v2 r by (metis append_take_drop_id)
  from frames_then_partial[of "[f1]" c 0 "f1 @ take j f2" "take j f2" parse "[]"] v1 i this
  obtain c1 where p1: "processData parse c (f1 @ take j f2) = Some ([payload_of f1], c1)"
    and a1: "accumulated c1 (take j f2)"
    by (auto simp: processData_def idle_accumulated)
  from chunk_complete[OF v2 a1 _ r, of 0 "drop j f2" "[]" parse "[]"]
  obtain c2 where "idle c2" "processData parse c1 (drop j f2) = Some ([payload_of f2], c2)"
    by (auto simp: processData_def loop_end)
  then show ?thesis using p1 t d by auto
qed

lemma two_frames_split_end:
  assumes v1: "valid_frame f1" and v2: "valid_frame f2" and i: "idle c"
    and k: "k = length f1 + length f2"
  shows "\<exists>c1 c2. processData parse c (take k (f1 @ f2)) = Some ([payload_of f1, payload_of f2], c1) \<and>
     processData parse c1 (drop k (f1 @ f2)) = Some ([], c2) \<and> idle c2"
proof -
  from frames_then_partial[of "[f1, f2]" c 0 "f1 @ f2" "[]" parse "[]"] v1 v2 i
  obtain c1 where "processData parse c (f1 @ f2) = Some ([payload_of f1, payload_of f2], c1)"
    "idle c1"
    by (auto simp: processData_def idle_accumulated)
  then show ?thesis using k by (auto simp: processData_def loop_end)
qed

text \<open>
  Claim C2 (frames that straddle two chunks). Take two frames of the wire format and hand
  their bytes, one frame behind the other, to \<open>processData\<close> in two calls, cut at any
  offset \<open>k\<close>, starting between two frames. Both calls return; the first hands
  \<open>handleResponse\<close> no payload, the first payload, or both, depending on where the cut
  falls, the second hands it what is left, so that over the two calls both payloads are
  handed over exactly once, the first frame's before the second's.
\<close>

theorem boundary_straddling:
  assumes "valid_frame f1" "valid_frame f2" "idle c" "k \<le> length (f1 @ f2)"
  shows "\<exists>out1 c1 out2 c2.
     processData parse c (take k (f1 @ f2)) = Some (out1, c1) \<and>
     processData parse c1 (drop k (f1 @ f2)) = Some (out2, c2) \<and>
     out1 = (if k < length f1 then []
             else if k < length (f1 @ f2) then [payload_of f1]
             else [payload_of f1, payload_of f2]) \<and>
     out1 @ out2 = [payload_of f1, payload_of f2] \<and> idle c2"
proof -
  consider "k < length f1" | "length f1 \<le> k" "k < length f1 + length f2"
    | "k = length f1 + length f2"
    using assms(4) by force
  then show ?thesis
  proof cases
    case 1
    from two_frames_split_first[OF assms(1-3) 1, of parse] 1 show ?thesis by auto
  next
    case 2
    from two_frames_split_second[OF assms(1-3) 2, of parse] 2 show ?thesis by auto
  next
    case 3
    from two_frames_split_end[OF assms(1-3) 3, of parse] 3 show ?thesis by auto
  qed
qed

theorem boundary_straddling_witness:
  "valid_frame [0, 0, 0, 1, 49] \<and> valid_frame [0, 0, 0, 2, 123, 125] \<and>
   idle (new_connection ''localhost'' 8080) \<and>
   (7::nat) \<le> length ([0, 0, 0, 1, 49] @ [0, 0, 0, 2, 123, 125 :: byte]) \<and>
   (\<exists>c1 out2 c2.
     processData example_parse (new_connection ''localhost'' 8080)
       [0, 0, 0, 1, 49, 0, 0] = Some ([''1''], c1) \<and>
     processData example_parse c1 [0, 2, 123, 125] = Some (out2, c2) \<and>
     [''1''] @ out2 = [''1'', ''{}''] \<and> idle c2)"
proof -
  have h1: "valid_frame [0, 0, 0, 1, 49]" and h2: "valid_frame [0, 0, 0, 2, 123, 125]"
    by (simp_all add: valid_frame_def uint32BE_def)
  have h3: "idle (new_connection ''localhost'' 8080)" by (simp add: idle_def new_connection_def)
  have h4: "(7::nat) \<le> length ([0, 0, 0, 1, 49] @ [0, 0, 0, 2, 123, 125 :: byte])" by simp
  have p1: "payload_of [0, 0, 0, 1, 49] = ''1''" and p2: "payload_of [0, 0, 0, 2, 123, 125] = ''{}''"
    by code_simp+
  from boundary_straddling[OF h1 h2 h3 h4, of example_parse] h1 h2 h3 h4
  show ?thesis by (auto simp add: p1 p2)
qed

lemma uint32BE_bounds: "0 \<le> uint32BE b0 b1 b2 b3" "uint32BE b0 b1 b2 b3 < 2 ^ 32"
proof -
  have b: "0 \<le> uint x" "uint x \<le> 255" for x :: byte
    using uint_lt2p[of x] by simp_all
  show "0 \<le> uint32BE b0 b1 b2 b3" unfolding uint32BE_def by simp
  show "uint32BE b0 b1 b2 b3 < 2 ^ 32"
    unfolding uint32BE_def using b(2)[of b0] b(2)[of b1] b(2)[of b2] b(2)[of b3] by simp
qed

text \<open>
  Claim C4 (invalid lengths are rejected). The loop of \<open>processData\<close> stands at offset \<open>k\<close>
  of the chunk \<open>data\<close>, the framer is waiting for a length, with fewer than four of its
  bytes taken in, and the rest of the chunk completes them. If the four bytes, read as
  an unsigned big-endian number \<open>u\<close>, are 0, have the high bit set (\<open>u \<ge> 2^31\<close>, a negative
  number for \<open>readInt32BE\<close>) or exceed 10 MiB, then \<open>processData\<close> reports the length with
  \<open>console.error\<close> and returns at once: nothing more is handed to \<open>handleResponse\<close>, both
  accumulators are empty and no expected length is set afterwards, and nothing else of
  the connection has changed. (\<open>processData\<close> is the loop from offset 0.)
\<close>

theorem invalid_length_rejected:
  assumes "expectedLength c = None" "length (lengthBuffer c) < 4" "k \<le> length data"
    and "take 4 (lengthBuffer c @ drop k data) = [b0, b1, b2, b3]"
    and "u = uint32BE b0 b1 b2 b3"
    and "u = 0 \<or> 2 ^ 31 \<le> u \<or> 10 * 1024 * 1024 < u"
  shows "processData_loop parse c data (int k) emitted =
      Some (emitted, resetBuffers (c\<lparr>console := console c @
              [InvalidMessageLength (if 2 ^ 31 \<le> u then u - 2 ^ 32 else u)]\<rparr>)) \<and>
    idle (resetBuffers (c\<lparr>console := console c @
              [InvalidMessageLength (if 2 ^ 31 \<le> u then u - 2 ^ 32 else u)]\<rparr>))"
proof -
  define ch where "ch = take (4 - length (lengthBuffer c)) (drop k data)"
  define rest where "rest = drop (4 - length (lengthBuffer c)) (drop k data)"
  let ?n = "if 2 ^ 31 \<le> u then u - 2 ^ 32 else u"
  have four: "length (take 4 (lengthBuffer c @ drop k data)) = 4" using assms(4) by simp
  then have long: "4 \<le> length (lengthBuffer c) + (length data - k)" by simp
  have d: "drop k data = ch @ rest" unfolding ch_def rest_def by (rule append_take_drop_id[symmetric])
  have l: "length (lengthBuffer c) + length ch = 4" using long assms(2) by (simp add: ch_def)
  have "lengthBuffer c @ ch = take 4 (lengthBuffer c @ drop k data)"
    using assms(2) by (simp add: ch_def)
  then have r: "readInt32BE (lengthBuffer c @ ch) = ?n"
    using assms(4,5) by (simp add: Let_def)
  have bad: "?n \<le> 0 \<or> ?n > 10 * 1024 * 1024"
    using assms(6) uint32BE_bounds(2)[of b0 b1 b2 b3] assms(5) by auto
  have "processData_pass parse c data (int k) =
      Stop (resetBuffers (c\<lparr>console := console c @ [InvalidMessageLength ?n]\<rparr>))"
    using pass_length_complete[OF assms(1) l d assms(3), of parse] r bad by (simp add: Let_def)
  moreover have "k < length data" using long assms(2) by linarith
  then have "int k < int (length data)" by simp
  ultimately have "processData_loop parse c data (int k) emitted =
      Some (emitted, resetBuffers (c\<lparr>console := console c @ [InvalidMessageLength ?n]\<rparr>))"
    using loop_step[of "int k" data parse c emitted] by simp
  then show ?thesis by (simp add: idle_def resetBuffers_def)
qed

theorem invalid_length_rejected_witness:
  "(let c = (new_connection ''localhost'' 8080)\<lparr>lengthBuffer := [0]\<rparr> in
    processData example_parse c [160, 0, 1, 123] =
      Some ([], resetBuffers (c\<lparr>console := console c @ [InvalidMessageLength 10485761]\<rparr>))) \<and>
   (let c = new_connection ''localhost'' 8080 in
    processData example_parse c [0, 0, 0, 0, 123, 125] =
      Some ([], resetBuffers (c\<lparr>console := console c @ [InvalidMessageLength 0]\<rparr>))) \<and>
   (let c = new_connection ''localhost'' 8080 in
    processData example_parse c [128, 0, 0, 2, 123, 125] =
      Some ([], resetBuffers (c\<lparr>console := console c @ [InvalidMessageLength (- 2147483646)]\<rparr>)))"
proof -
  let ?p = example_parse
  let ?c0 = "new_connection ''localhost'' 8080"
  let ?c1 = "?c0\<lparr>lengthBuffer := [0]\<rparr>"
  have a: "expectedLength ?c1 = None" "length (lengthBuffer ?c1) < 4"
    "expectedLength ?c0 = None" "length (lengthBuffer ?c0) < 4"
    by (simp_all add: new_connection_def)
  have k: "0 \<le> length [160, 0, 1, 123 :: byte]" "0 \<le> length [0, 0, 0, 0, 123, 125 :: byte]"
    "0 \<le> length [128, 0, 0, 2, 123, 125 :: byte]" by simp_all
  have t1: "take 4 (lengthBuffer ?c1 @ drop 0 [160, 0, 1, 123]) = [0, 160, 0, 1]"
    and t2: "take 4 (lengthBuffer ?c0 @ drop 0 [0, 0, 0, 0, 123, 125]) = [0, 0, 0, 0]"
    and t3: "take 4 (lengthBuffer ?c0 @ drop 0 [128, 0, 0, 2, 123, 125]) = [128, 0, 0, 2]"
    by (simp_all add: new_connection_def)
  have u1: "(10485761::int) = uint32BE 0 160 0 1" and u2: "(0::int) = uint32BE 0 0 0 0"
    and u3: "(2147483650::int) = uint32BE 128 0 0 2"
    by (simp_all add: uint32BE_def)
  have v1: "(10485761::int) = 0 \<or> 2 ^ 31 \<le> (10485761::int) \<or> 10 * 1024 * 1024 < (10485761::int)"
    and v2: "(0::int) = 0 \<or> 2 ^ 31 \<le> (0::int) \<or> 10 * 1024 * 1024 < (0::int)"
    and v3: "(2147483650::int) = 0 \<or> 2 ^ 31 \<le> (2147483650::int) \<or> 10 * 1024 * 1024 < (2147483650::int)"
    by simp_all
  from invalid_length_rejected[OF a(1,2) k(1) t1 u1 v1, of ?p "[]"]
    invalid_length_rejected[OF a(3,4) k(2) t2 u2 v2, of ?p "[]"]
    invalid_length_rejected[OF a(3,4) k(3) t3 u3 v3, of ?p "[]"]
  show ?thesis by (simp add: Let_def processData_def)
qed

section \<open>Request identifiers and the example request\<close>

lemma decimal_nonempty: "decimal n \<noteq> []"
  by (subst decimal.simps) (simp add: Let_def)

lemma digit_not_d: "char_of (48 + n mod 10 :: int) \<noteq> CHR ''d''"
proof
  assume "char_of (48 + n mod 10 :: int) = CHR ''d''"
  then have "(of_char (char_of (48 + n mod 10 :: int)) :: int) = of_char CHR ''d''" by simp
  then have "(48 + n mod 10) mod 256 = (100 :: int)" by (simp add: take_bit_eq_mod)
  moreover have "0 \<le> n mod 10" "n mod 10 < 10" by simp_all
  ultimately show False by simp
qed

lemma decimal_hd: "hd (decimal n) \<noteq> CHR ''d''"
proof (induction n rule: decimal.induct)
  case (1 n)
  show ?case
  proof (cases "n div 10 \<le> 0")
    case True
    then show ?thesis by (subst decimal.simps) (simp add: Let_def digit_not_d)
  next
    case False
    then have "hd (decimal (n div 10)) \<noteq> CHR ''d''" using 1 by simp
    then show ?thesis using False
      by (subst decimal.simps) (simp add: Let_def decimal_nonempty)
  qed
qed

lemma generateRequestId_nonempty: "generateRequestId e \<noteq> []"
  by (simp add: generateRequestId_def string_of_int_def decimal_nonempty)

lemma generateRequestId_not_default: "generateRequestId e \<noteq> ''default''"
proof
  assume a: "generateRequestId e = ''default''"
  have "string_of_int (now e) \<noteq> []" by (simp add: string_of_int_def decimal_nonempty)
  then have "hd (generateRequestId e) = hd (string_of_int (now e))"
    by (simp add: generateRequestId_def)
  moreover have "hd (string_of_int (now e)) \<noteq> CHR ''d''"
    by (simp add: string_of_int_def decimal_hd)
  ultimately show False using a by simp
qed

lemma example_generated: "generateRequestId example_env = example_id"
  unfolding example_env_def example_id_def by code_simp

lemma example_connection_eq:
  \<open>\<exists>message. example_connection =
     (new_connection ''localhost'' 8080)
       \<lparr>promises := 1, socketCalls := [SocketConnect],
        responseCallbacks := [example_id \<mapsto> 0],
        written := [message], timers := [example_timer]\<rparr>\<close>
proof -
  obtain message where
    \<open>frame ''{"jsonrpc":"2.0","method":"ping","params":{},"id":"1700000000000123456"}'' = Some message\<close>
    using frame_valid[of \<open>''{"jsonrpc":"2.0","method":"ping","params":{},"id":"1700000000000123456"}''\<close>]
    by auto
  then have "example_connection =
     (new_connection ''localhost'' 8080)
       \<lparr>promises := 1, socketCalls := [SocketConnect],
        responseCallbacks := [example_id \<mapsto> 0],
        written := [message], timers := [example_timer]\<rparr>"
    by (simp add: example_connection_def sendCommand_def example_generated[unfolded example_env_def]
      connect_def new_connection_def example_stringify_def example_timer_def Let_def example_env_def)
  then show ?thesis by blast
qed

lemma example_connection_fields:
  "responseCallbacks example_connection = [example_id \<mapsto> 0]"
  "settled example_connection = []" "console example_connection = []"
  "timers example_connection = [example_timer]"
  "lengthBuffer example_connection = []" "messageBuffer example_connection = []"
  "expectedLength example_connection = None"
proof -
  obtain message where e: "example_connection =
     (new_connection ''localhost'' 8080)
       \<lparr>promises := 1, socketCalls := [SocketConnect],
        responseCallbacks := [example_id \<mapsto> 0],
        written := [message], timers := [example_timer]\<rparr>"
    using example_connection_eq by blast
  show "responseCallbacks example_connection = [example_id \<mapsto> 0]"
    "settled example_connection = []" "console example_connection = []"
    "timers example_connection = [example_timer]"
    "lengthBuffer example_connection = []" "messageBuffer example_connection = []"
    "expectedLength example_connection = None"
    unfolding e by (simp_all add: new_connection_def)
qed

lemma example_reachable: "reachable example_parse example_stringify example_connection"
  unfolding example_connection_def by (rule r_sendCommand) (rule r_new)

section \<open>Correlation claims\<close>

lemma deliver_registered:
  assumes "responseCallbacks c X = Some p"
  shows "deliver parse c (Some (JStr X)) data =
    c\<lparr>settled := settled c @ [(p, callback parse data)],
      responseCallbacks := (responseCallbacks c)(X := None)\<rparr>"
  using assms by (simp add: deliver_def)

lemma deliver_unregistered:
  assumes "callbacks_get (responseCallbacks c) requestId = None"
  shows "deliver parse c requestId data = c"
  using assms by (simp add: deliver_def)

lemma handleResponse_parsed:
  assumes "parse data = Inr response" "get_prop (Some response) ''id'' = Inr ident"
  shows "handleResponse_try parse c data =
      Inr (deliver parse c (js_or ident (Some (JStr ''default''))) data)"
    and "handleResponse parse c data = deliver parse c (js_or ident (Some (JStr ''default''))) data"
  using assms by (simp_all add: handleResponse_def handleResponse_try_def)

text \<open>
  Claim C3 (a request is settled once). A callback is registered under \<open>X\<close> for the
  promise \<open>p\<close>, and \<open>t\<close> is the timer of the same request. A response whose \<open>id\<close> is the
  string \<open>X\<close> (not empty: no identifier \<open>sendCommand\<close> generates is) arrives and the timer
  fires, in either order. Whichever comes first calls \<open>resolve\<close> or \<open>reject\<close> of \<open>p\<close>
  once and removes the registration; the one that comes second changes nothing. So in
  both orders exactly one settlement of \<open>p\<close> is added.
\<close>

theorem settled_exactly_once:
  assumes "responseCallbacks c X = Some p"
    and "timer_requestId t = X" "timer_promise t = p"
    and "parse data = Inr response" "get_prop (Some response) ''id'' = Inr (Some (JStr X))"
    and "X \<noteq> []"
  shows "settled (handleResponse parse c data) = settled c @ [(p, callback parse data)] \<and>
    responseCallbacks (handleResponse parse c data) X = None \<and>
    timeoutFires (handleResponse parse c data) t = handleResponse parse c data \<and>
    settled (timeoutFires c t) = settled c @
      [(p, Rejected (Some (JStr (''Command timed out after 2 minutes: '' @ timer_command t))))] \<and>
    responseCallbacks (timeoutFires c t) X = None \<and>
    handleResponse parse (timeoutFires c t) data = timeoutFires c t"
proof -
  have rid: "js_or (Some (JStr X)) (Some (JStr ''default'')) = Some (JStr X)"
    using assms(6) by (simp add: js_or_def)
  have h: "handleResponse parse c' data = deliver parse c' (Some (JStr X)) data" for c'
    using handleResponse_parsed(2)[where parse=parse and data=data, OF assms(4,5)] rid by simp
  have first: "handleResponse parse c data =
    c\<lparr>settled := settled c @ [(p, callback parse data)],
      responseCallbacks := (responseCallbacks c)(X := None)\<rparr>"
    using h deliver_registered[OF assms(1)] by simp
  have gone: "responseCallbacks (timeoutFires c t) X = None"
    using assms(1,2) by (simp add: timeoutFires_def)
  have "handleResponse parse (timeoutFires c t) data = timeoutFires c t"
    using h deliver_unregistered[of "timeoutFires c t" "Some (JStr X)"] gone by simp
  then show ?thesis using first assms(1,2,3) by (simp add: timeoutFires_def)
qed

theorem settled_exactly_once_witness:
  \<open>responseCallbacks example_connection example_id = Some 0 \<and>
   timer_requestId example_timer = example_id \<and> timer_promise example_timer = 0 \<and>
   example_parse ''{"id":"1700000000000123456","result":{"pong":true}}'' =
     Inr (JObj [(''id'', JStr example_id), (''result'', JObj [(''pong'', JBool True)])]) \<and>
   get_prop (Some (JObj [(''id'', JStr example_id), (''result'', JObj [(''pong'', JBool True)])])) ''id''
     = Inr (Some (JStr example_id)) \<and>
   example_id \<noteq> [] \<and>
   settled (handleResponse example_parse example_connection
       ''{"id":"1700000000000123456","result":{"pong":true}}'') =
     [(0, Resolved (Some (JObj [(''pong'', JBool True)])))] \<and>
   settled (timeoutFires (handleResponse example_parse example_connection
       ''{"id":"1700000000000123456","result":{"pong":true}}'') example_timer) =
     [(0, Resolved (Some (JObj [(''pong'', JBool True)])))] \<and>
   settled (timeoutFires example_connection example_timer) =
     [(0, Rejected (Some (JStr ''Command timed out after 2 minutes: ping'')))] \<and>
   settled (handleResponse example_parse (timeoutFires example_connection example_timer)
       ''{"id":"1700000000000123456","result":{"pong":true}}'') =
     [(0, Rejected (Some (JStr ''Command timed out after 2 minutes: ping'')))]\<close>
proof -
  let ?data = \<open>''{"id":"1700000000000123456","result":{"pong":true}}''\<close>
  let ?response = "JObj [(''id'', JStr example_id), (''result'', JObj [(''pong'', JBool True)])]"
  have h1: "responseCallbacks example_connection example_id = Some 0"
    by (simp add: example_connection_fields)
  have h2: "timer_requestId example_timer = example_id" and h3: "timer_promise example_timer = 0"
    by (simp_all add: example_timer_def)
  have h4: "example_parse ?data = Inr ?response" by (simp add: example_parse_def)
  have h5: "get_prop (Some ?response) ''id'' = Inr (Some (JStr example_id))" by simp
  have h6: "example_id \<noteq> []" by (simp add: example_id_def)
  have cb: "callback example_parse ?data = Resolved (Some (JObj [(''pong'', JBool True)]))"
    by (simp add: callback_def callback_body_def h4)
  have tc: "timer_command example_timer = ''ping''" by (simp add: example_timer_def)
  from settled_exactly_once[where parse=example_parse and data="?data", OF h1 h2 h3 h4 h5 h6]
  show ?thesis using h1 h2 h3 h4 h5 h6
    by (simp add: cb tc example_connection_fields)
qed




text \<open>
  Claim C8 (a response nobody waits for). A payload parses, its identifier can be read,
  and no callback is registered under it. Then the \<open>try\<close> block of \<open>handleResponse\<close> ends
  without an exception and the connection is what it was: nothing is settled, no
  registration is touched, the accumulators of the framer are untouched, nothing is
  logged.
\<close>

theorem unknown_id_dropped:
  assumes "parse data = Inr response" "get_prop (Some response) ''id'' = Inr ident"
    and "callbacks_get (responseCallbacks c) (js_or ident (Some (JStr ''default''))) = None"
  shows "handleResponse_try parse c data = Inr c \<and> handleResponse parse c data = c"
  using handleResponse_parsed[where parse=parse and data=data and c=c, OF assms(1,2)]
    deliver_unregistered[OF assms(3), of parse data]
  by simp

theorem unknown_id_dropped_witness:
  \<open>example_parse ''{"id":"99","result":1}'' = Inr (JObj [(''id'', JStr ''99''), (''result'', JNum 1)]) \<and>
   get_prop (Some (JObj [(''id'', JStr ''99''), (''result'', JNum 1)])) ''id'' = Inr (Some (JStr ''99'')) \<and>
   callbacks_get (responseCallbacks example_connection)
     (js_or (Some (JStr ''99'')) (Some (JStr ''default''))) = None \<and>
   handleResponse_try example_parse example_connection ''{"id":"99","result":1}'' =
     Inr example_connection \<and>
   handleResponse example_parse example_connection ''{"id":"99","result":1}'' = example_connection\<close>
proof -
  let ?data = \<open>''{"id":"99","result":1}''\<close>
  have h1: "example_parse ?data = Inr (JObj [(''id'', JStr ''99''), (''result'', JNum 1)])"
    by (simp add: example_parse_def)
  have h2: "get_prop (Some (JObj [(''id'', JStr ''99''), (''result'', JNum 1)])) ''id'' =
    Inr (Some (JStr ''99''))" by simp
  have h3: "callbacks_get (responseCallbacks example_connection)
     (js_or (Some (JStr ''99'')) (Some (JStr ''default''))) = None"
    by (simp add: example_connection_fields js_or_def example_id_def)
  from unknown_id_dropped[where parse=example_parse and data="?data", OF h1 h2 h3]
  show ?thesis using h1 h2 h3 by simp
qed

lemma callback_envelope:
  assumes "parse data = Inr (JObj members)"
  shows "callback parse data =
    (if truthy (map_of members ''error'') then
       (case get_prop (map_of members ''error'') ''message'' of
          Inl e \<Rightarrow> Rejected (Some (JStr (''Failed to parse response: '' @ e)))
        | Inr m \<Rightarrow> Rejected (js_or m (Some (JStr ''Unknown error from Revit''))))
     else Resolved (map_of members ''result''))"
  using assms by (simp add: callback_def callback_body_def split: sum.splits)

text \<open>
  Claim C7 fails as it is stated: an envelope with the error \<open>{"message": ""}\<close> answers
  the example request, and the promise is rejected with \<open>Unknown error from Revit\<close>, which
  is not the message of the envelope's error.
\<close>

theorem error_message_counterexample:
  \<open>example_parse ''{"id":"1700000000000123456","error":{"message":""}}'' =
     Inr (JObj [(''id'', JStr example_id), (''error'', JObj [(''message'', JStr [])])]) \<and>
   settled (handleResponse example_parse example_connection
       ''{"id":"1700000000000123456","error":{"message":""}}'') =
     [(0, Rejected (Some (JStr ''Unknown error from Revit'')))] \<and>
   settled (handleResponse example_parse example_connection
       ''{"id":"1700000000000123456","error":{"message":""}}'') \<noteq>
     [(0, Rejected (Some (JStr [])))]\<close>
proof -
  let ?data = \<open>''{"id":"1700000000000123456","error":{"message":""}}''\<close>
  let ?response = "JObj [(''id'', JStr example_id), (''error'', JObj [(''message'', JStr [])])]"
  have p: "example_parse ?data = Inr ?response" by (simp add: example_parse_def)
  have "handleResponse example_parse example_connection ?data =
      deliver example_parse example_connection (Some (JStr example_id)) ?data"
    using handleResponse_parsed(2)[where parse=example_parse and data="?data", OF p, of "Some (JStr example_id)"]
    by (simp add: js_or_def example_id_def)
  moreover have "callback example_parse ?data = Rejected (Some (JStr ''Unknown error from Revit''))"
    using callback_envelope[where parse=example_parse and data="?data", OF p] by (simp add: js_or_def)
  ultimately show ?thesis using p
    by (simp add: deliver_def example_connection_fields)
qed

text \<open>
  Claim C7 as amended (result and error propagation). A callback is registered under \<open>X\<close>
  for the promise \<open>p\<close> and a payload arrives that parses to an object whose \<open>id\<close> is the
  string \<open>X\<close>. Then \<open>p\<close> is settled once, as follows. If the object has an \<open>error\<close> that
  is an object: \<open>reject\<close> with its \<open>message\<close> when that is a string that is not empty, and
  with \<open>Unknown error from Revit\<close> when the message is the empty string or missing. If the
  object has no \<open>error\<close> member: \<open>resolve\<close> with its \<open>result\<close>.
\<close>

theorem error_or_result_propagated:
  assumes "responseCallbacks c X = Some p" "parse data = Inr (JObj members)"
    and "map_of members ''id'' = Some (JStr X)" "X \<noteq> []"
  shows "settled (handleResponse parse c data) = settled c @ [(p, callback parse data)] \<and>
    (\<forall>e m. map_of members ''error'' = Some (JObj e) \<and> map_of e ''message'' = Some (JStr m) \<and> m \<noteq> []
       \<longrightarrow> callback parse data = Rejected (Some (JStr m))) \<and>
    (\<forall>e. map_of members ''error'' = Some (JObj e) \<and>
         (map_of e ''message'' = None \<or> map_of e ''message'' = Some (JStr []))
       \<longrightarrow> callback parse data = Rejected (Some (JStr ''Unknown error from Revit''))) \<and>
    (map_of members ''error'' = None \<longrightarrow> callback parse data = Resolved (map_of members ''result''))"
proof -
  have "handleResponse parse c data = deliver parse c (Some (JStr X)) data"
    using handleResponse_parsed(2)[where parse=parse and data=data, OF assms(2), of "Some (JStr X)"]
      assms(3,4) by (simp add: js_or_def)
  then have "settled (handleResponse parse c data) = settled c @ [(p, callback parse data)]"
    using deliver_registered[OF assms(1)] by simp
  then show ?thesis
    using callback_envelope[where parse=parse and data=data, OF assms(2)]
    by (auto simp: js_or_def)
qed

theorem error_or_result_propagated_witness:
  \<open>responseCallbacks example_connection example_id = Some 0 \<and>
   example_parse ''{"id":"1700000000000123456","error":{"message":"boom"}}'' =
     Inr (JObj [(''id'', JStr example_id), (''error'', JObj [(''message'', JStr ''boom'')])]) \<and>
   map_of [(''id'', JStr example_id), (''error'', JObj [(''message'', JStr ''boom'')])] ''id'' =
     Some (JStr example_id) \<and>
   example_id \<noteq> [] \<and>
   map_of [(''id'', JStr example_id), (''error'', JObj [(''message'', JStr ''boom'')])] ''error'' =
     Some (JObj [(''message'', JStr ''boom'')]) \<and>
   map_of [(''message'', JStr ''boom'')] ''message'' = Some (JStr ''boom'') \<and> ''boom'' \<noteq> [] \<and>
   settled (handleResponse example_parse example_connection
       ''{"id":"1700000000000123456","error":{"message":"boom"}}'') =
     [(0, Rejected (Some (JStr ''boom'')))]\<close>
proof -
  let ?data = \<open>''{"id":"1700000000000123456","error":{"message":"boom"}}''\<close>
  let ?members = "[(''id'', JStr example_id), (''error'', JObj [(''message'', JStr ''boom'')])]"
  have h1: "responseCallbacks example_connection example_id = Some 0"
    by (simp add: example_connection_fields)
  have h2: "example_parse ?data = Inr (JObj ?members)" by (simp add: example_parse_def)
  have h3: "map_of ?members ''id'' = Some (JStr example_id)" by simp
  have h4: "example_id \<noteq> []" by (simp add: example_id_def)
  have h5: "map_of ?members ''error'' = Some (JObj [(''message'', JStr ''boom'')])" by simp
  have h6: "map_of [(''message'', JStr ''boom'')] ''message'' = Some (JStr ''boom'')" by simp
  from error_or_result_propagated[where parse=example_parse and data="?data", OF h1 h2 h3 h4]
  have "settled (handleResponse example_parse example_connection ?data) =
      settled example_connection @ [(0, callback example_parse ?data)]"
    and "callback example_parse ?data = Rejected (Some (JStr ''boom''))"
    using h5 h6 by auto
  then show ?thesis using h1 h2 h3 h4 h5 h6 by (simp add: example_connection_fields)
qed

lemma sendCommand_timer:
  assumes "sendCommand stringify e c command params = (p, c1)" "timers c1 = timers c @ [t]"
  shows "t = \<lparr>timer_requestId = generateRequestId e, timer_command = command,
               timer_promise = p, timer_delay = 120000\<rparr>"
    and "responseCallbacks c1 (generateRequestId e) = Some p"
  using assms
  by (auto simp: sendCommand_def Let_def connect_def split: option.splits if_splits)

text \<open>
  Claim C5 fails as it is stated: \<open>sendCommand\<close> has two parameters, the command and its
  \<open>params\<close>, and none for a timeout. The call \<open>sendCommand("slow", {}, 50)\<close> arms one timer,
  of 120000 ms.
\<close>

theorem per_call_timeout_counterexample:
  "map timer_delay
     (timers (snd (sendCommand_call example_stringify example_env
        (new_connection ''localhost'' 8080) ''slow'' [Some (JObj []), Some (JNum 50)])))
   = [120000]"
proof -
  obtain message where
    \<open>frame ''{"jsonrpc":"2.0","method":"slow","params":{},"id":"1700000000000123456"}'' = Some message\<close>
    using frame_valid[of \<open>''{"jsonrpc":"2.0","method":"slow","params":{},"id":"1700000000000123456"}''\<close>]
    by auto
  then show ?thesis
    by (simp add: sendCommand_call_def sendCommand_def example_generated[unfolded example_env_def]
      connect_def new_connection_def example_stringify_def Let_def example_env_def)
qed

lemma sendCommand_writes:
  assumes "sendCommand stringify e c command params = (p, c1)" "written c1 = written c @ [m]"
  shows "timers c1 = timers c @
      [\<lparr>timer_requestId = generateRequestId e, timer_command = command,
        timer_promise = p, timer_delay = 120000\<rparr>]"
    and "responseCallbacks c1 (generateRequestId e) = Some p"
  using assms
  by (auto simp: sendCommand_def Let_def connect_def split: option.splits if_splits)

lemma sendCommand_fits:
  assumes "int (length (stringify (JObj [(''jsonrpc'', JStr ''2.0''), (''method'', JStr command),
      (''params'', params), (''id'', JStr (generateRequestId e))]))) < 2 ^ 31"
  shows "\<exists>m. written (snd (sendCommand stringify e c command params)) = written c @ [m]"
proof -
  let ?s = "stringify (JObj [(''jsonrpc'', JStr ''2.0''), (''method'', JStr command),
      (''params'', params), (''id'', JStr (generateRequestId e))])"
  have "length (Buffer_from_utf8 ?s) = length ?s" by (simp add: Buffer_from_utf8_def)
  then obtain m where "frame ?s = Some m"
    using assms by (simp add: frame_def writeInt32BE_def)
  then show ?thesis by (simp add: sendCommand_def Let_def connect_def)
qed

text \<open>
  Claim C5 as amended (the timeout of a request). Whatever arguments \<open>sendCommand\<close> is
  called with, a call that writes its message arms one timer, of 120000 ms, for the
  request it has just registered. Whenever that timer fires, in whatever state the
  connection then is, while something is still registered under the request's
  identifier, the registration is removed and the promise of the call rejected with
  \<open>Command timed out after 2 minutes:\<close> and the command's name; a response that arrives
  for that identifier afterwards leaves the connection as it is.
\<close>

theorem timeout_after_two_minutes:
  assumes "sendCommand_call stringify e c command args = (p, c1)"
    and "written c1 = written c @ [m]"
  shows "\<exists>t. timers c1 = timers c @ [t] \<and>
    timer_delay t = 120000 \<and> timer_command t = command \<and> timer_promise t = p \<and>
    responseCallbacks c1 (timer_requestId t) = Some p \<and>
    (\<forall>c2. responseCallbacks c2 (timer_requestId t) \<noteq> None \<longrightarrow>
       settled (timeoutFires c2 t) = settled c2 @
         [(p, Rejected (Some (JStr (''Command timed out after 2 minutes: '' @ command))))] \<and>
       responseCallbacks (timeoutFires c2 t) (timer_requestId t) = None \<and>
       (\<forall>data response.
          parse data = Inr response \<and>
          get_prop (Some response) ''id'' = Inr (Some (JStr (timer_requestId t)))
          \<longrightarrow> handleResponse parse (timeoutFires c2 t) data = timeoutFires c2 t))"
proof -
  let ?X = "generateRequestId e"
  let ?t = "\<lparr>timer_requestId = ?X, timer_command = command,
               timer_promise = p, timer_delay = 120000\<rparr>"
  from assms have armed: "timers c1 = timers c @ [?t]"
    and reg: "responseCallbacks c1 ?X = Some p"
    unfolding sendCommand_call_def by (rule sendCommand_writes)+
  have fired: "timeoutFires c2 ?t = c2\<lparr>responseCallbacks := (responseCallbacks c2)(?X := None),
      settled := settled c2 @
        [(p, Rejected (Some (JStr (''Command timed out after 2 minutes: '' @ command))))]\<rparr>"
    if "responseCallbacks c2 ?X \<noteq> None" for c2
    using that by (simp add: timeoutFires_def)
  have late: "handleResponse parse (timeoutFires c2 ?t) data = timeoutFires c2 ?t"
    if "responseCallbacks c2 ?X \<noteq> None"
      "parse data = Inr response" "get_prop (Some response) ''id'' = Inr (Some (JStr ?X))"
    for c2 data response
  proof -
    have "js_or (Some (JStr ?X)) (Some (JStr ''default'')) = Some (JStr ?X)"
      by (simp add: js_or_def generateRequestId_nonempty)
    then have "handleResponse parse (timeoutFires c2 ?t) data =
        deliver parse (timeoutFires c2 ?t) (Some (JStr ?X)) data"
      using handleResponse_parsed(2)[where parse=parse and data=data, OF that(2,3)] by simp
    then show ?thesis using fired[OF that(1)] by (simp add: deliver_def)
  qed
  show ?thesis
    by (rule exI[of _ ?t]) (use armed reg fired late in auto)
qed

theorem timeout_after_two_minutes_witness:
  \<open>(\<exists>c1 m t. sendCommand_call example_stringify example_env (new_connection ''localhost'' 8080)
       ''slow'' [Some (JObj []), Some (JNum 50)] = (0, c1) \<and>
     written c1 = written (new_connection ''localhost'' 8080) @ [m] \<and>
     timers c1 = timers (new_connection ''localhost'' 8080) @ [t] \<and>
     timer_delay t = 120000 \<and> timer_requestId t = example_id \<and>
     responseCallbacks (on_close c1) (timer_requestId t) \<noteq> None \<and>
     settled (timeoutFires (on_close c1) t) =
       [(0, Rejected (Some (JStr ''Command timed out after 2 minutes: slow'')))] \<and>
     responseCallbacks (timeoutFires (on_close c1) t) example_id = None \<and>
     example_parse ''{"id":"1700000000000123456","result":{"pong":true}}'' =
       Inr (JObj [(''id'', JStr example_id), (''result'', JObj [(''pong'', JBool True)])]) \<and>
     get_prop (Some (JObj [(''id'', JStr example_id), (''result'', JObj [(''pong'', JBool True)])])) ''id''
       = Inr (Some (JStr example_id)) \<and>
     handleResponse example_parse (timeoutFires (on_close c1) t)
       ''{"id":"1700000000000123456","result":{"pong":true}}'' = timeoutFires (on_close c1) t)\<close>
proof -
  let ?data = \<open>''{"id":"1700000000000123456","result":{"pong":true}}''\<close>
  let ?response = "JObj [(''id'', JStr example_id), (''result'', JObj [(''pong'', JBool True)])]"
  let ?c = "new_connection ''localhost'' 8080"
  let ?t = "\<lparr>timer_requestId = example_id, timer_command = ''slow'', timer_promise = 0,
             timer_delay = 120000\<rparr>"
  obtain message where
    \<open>frame ''{"jsonrpc":"2.0","method":"slow","params":{},"id":"1700000000000123456"}'' = Some message\<close>
    using frame_valid[of \<open>''{"jsonrpc":"2.0","method":"slow","params":{},"id":"1700000000000123456"}''\<close>]
    by auto
  then obtain c1 where
    h1: "sendCommand_call example_stringify example_env ?c ''slow'' [Some (JObj []), Some (JNum 50)]
      = (0, c1)"
    and h2: "written c1 = written ?c @ [message]"
    and tm: "timers c1 = timers ?c @ [?t]" and s: "settled c1 = []"
    and r: "responseCallbacks c1 example_id = Some 0"
    by (simp add: sendCommand_call_def sendCommand_def example_generated[unfolded example_env_def]
      connect_def new_connection_def example_stringify_def Let_def example_env_def)
  have h3: "example_parse ?data = Inr ?response" by (simp add: example_parse_def)
  have h4: "get_prop (Some ?response) ''id'' = Inr (Some (JStr example_id))" by simp
  have later: "responseCallbacks (on_close c1) example_id \<noteq> None" "settled (on_close c1) = []"
    using r s by (simp_all add: on_close_def)
  from timeout_after_two_minutes[where parse=example_parse, OF h1 h2]
  obtain t where t: "timers c1 = timers ?c @ [t]" "timer_delay t = 120000"
    and fire: "\<forall>c2. responseCallbacks c2 (timer_requestId t) \<noteq> None \<longrightarrow>
       settled (timeoutFires c2 t) = settled c2 @
         [(0, Rejected (Some (JStr (''Command timed out after 2 minutes: '' @ ''slow''))))] \<and>
       responseCallbacks (timeoutFires c2 t) (timer_requestId t) = None \<and>
       (\<forall>data response.
          example_parse data = Inr response \<and>
          get_prop (Some response) ''id'' = Inr (Some (JStr (timer_requestId t)))
          \<longrightarrow> handleResponse example_parse (timeoutFires c2 t) data = timeoutFires c2 t)"
    by blast
  have tt: "t = ?t" using t(1) tm by simp
  then have id: "timer_requestId t = example_id" by simp
  from fire[rule_format, of "on_close c1"] later id
  have f: "settled (timeoutFires (on_close c1) t) =
       [(0, Rejected (Some (JStr ''Command timed out after 2 minutes: slow'')))]"
    "responseCallbacks (timeoutFires (on_close c1) t) example_id = None"
    "\<forall>data response.
          example_parse data = Inr response \<and>
          get_prop (Some response) ''id'' = Inr (Some (JStr example_id))
          \<longrightarrow> handleResponse example_parse (timeoutFires (on_close c1) t) data =
              timeoutFires (on_close c1) t"
    by simp_all
  from f(3)[rule_format, of ?data ?response] h3 h4
  have l: "handleResponse example_parse (timeoutFires (on_close c1) t) ?data =
      timeoutFires (on_close c1) t" by simp
  show ?thesis
    using h1 h2 t id later f(1,2) h3 h4 l
    by (intro exI[of _ c1] exI[of _ message] exI[of _ t]) simp
qed

section \<open>What holds of every connection\<close>

lemma slice_length:
  assumes "0 \<le> j" "0 \<le> n" "j + n \<le> int (length data)"
  shows "int (length (Buffer_slice data j (j + n))) = n"
proof -
  obtain k m where km: "j = int k" "n = int m" using assms(1,2) by (metis nonneg_int_cases)
  then have "k + m \<le> length data" using assms(3) by simp
  then show ?thesis using slice_drop[of k data m] km by simp
qed

lemma handleResponse_buffers:
  "lengthBuffer (handleResponse parse c s) = lengthBuffer c"
  "messageBuffer (handleResponse parse c s) = messageBuffer c"
  "expectedLength (handleResponse parse c s) = expectedLength c"
  by (simp_all add: handleResponse_def handleResponse_try_def deliver_def Let_def
      split: sum.splits option.splits)

lemma callbacks_delete_None: "cbs k = None \<Longrightarrow> callbacks_delete cbs v k = None"
  by (cases "(cbs, v)" rule: callbacks_delete.cases) auto

lemma handleResponse_unregistered:
  "responseCallbacks c k = None \<Longrightarrow> responseCallbacks (handleResponse parse c s) k = None"
  by (simp add: handleResponse_def handleResponse_try_def deliver_def Let_def callbacks_delete_None
      split: sum.splits option.splits)

lemma conn_inv_reset:
  assumes "responseCallbacks c ''default'' = None" "responseCallbacks c [] = None"
  shows "conn_inv (resetBuffers c)"
  using assms by (simp add: conn_inv_def framer_inv_def resetBuffers_def)

lemma read_payload_inv:
  assumes el: "expectedLength c = Some L" and lb: "lengthBuffer c = []"
    and mb: "int (length (messageBuffer c)) < L" and j: "0 \<le> j" "j \<le> int (length data)"
    and q: "responseCallbacks c ''default'' = None" "responseCallbacks c [] = None"
  shows "\<exists>p c' j'. read_payload parse c data j = Next p c' j' \<and> conn_inv c' \<and>
    j \<le> j' \<and> j' \<le> int (length data) \<and> (j < int (length data) \<longrightarrow> j < j')"
proof -
  define n where "n = min (L - int (length (messageBuffer c))) (int (length data) - j)"
  define c1 where "c1 = c\<lparr>messageBuffer := messageBuffer c @ Buffer_slice data j (j + n)\<rparr>"
  have n: "0 \<le> n" "j + n \<le> int (length data)" using mb j by (simp_all add: n_def)
  have len: "int (length (messageBuffer c1)) = int (length (messageBuffer c)) + n"
    using slice_length[OF j(1) n] by (simp add: c1_def)
  show ?thesis
  proof (cases "int (length (messageBuffer c1)) = L")
    case True
    then have "read_payload parse c data j =
      Next (Some (toString_utf8 (messageBuffer c1)))
        (resetBuffers (handleResponse parse c1 (toString_utf8 (messageBuffer c1)))) (j + n)"
      using el by (simp add: read_payload_def Let_def n_def c1_def)
    moreover have "conn_inv (resetBuffers (handleResponse parse c1 (toString_utf8 (messageBuffer c1))))"
      by (rule conn_inv_reset; rule handleResponse_unregistered) (simp_all add: c1_def q)
    moreover have "0 < n" using True len mb by simp
    ultimately show ?thesis using n by auto
  next
    case False
    then have r: "read_payload parse c data j = Next None c1 (j + n)"
      using el by (simp add: read_payload_def Let_def n_def c1_def)
    have short: "n < L - int (length (messageBuffer c))" using False len by (simp add: n_def)
    then have all: "n = int (length data) - j" by (simp add: n_def)
    have "conn_inv c1"
      using False len el lb q short
      by (simp add: conn_inv_def framer_inv_def c1_def)
    then show ?thesis using r n all by auto
  qed
qed

lemma pass_inv:
  assumes inv: "conn_inv c" and j: "0 \<le> j" "j < int (length data)"
  shows "case processData_pass parse c data j of
      Stop c' \<Rightarrow> conn_inv c'
    | Next p c' j' \<Rightarrow> conn_inv c' \<and> j < j' \<and> j' \<le> int (length data)"
proof (cases "expectedLength c")
  case (Some L)
  then have "lengthBuffer c = []" "int (length (messageBuffer c)) < L"
    and q: "responseCallbacks c ''default'' = None" "responseCallbacks c [] = None"
    using inv by (simp_all add: conn_inv_def framer_inv_def)
  from read_payload_inv[OF Some this(1,2) j(1) _ q, of data parse] j
  show ?thesis using Some by (auto simp: pass_payload)
next
  case None
  then have lb: "length (lengthBuffer c) < 4" and mb: "messageBuffer c = []"
    and q: "responseCallbacks c ''default'' = None" "responseCallbacks c [] = None"
    using inv by (simp_all add: conn_inv_def framer_inv_def)
  define n where "n = min (4 - int (length (lengthBuffer c))) (int (length data) - j)"
  define c1 where "c1 = c\<lparr>lengthBuffer := lengthBuffer c @ Buffer_slice data j (j + n)\<rparr>"
  have n: "0 < n" "j + n \<le> int (length data)" using lb j by (simp_all add: n_def)
  have len: "int (length (lengthBuffer c1)) = int (length (lengthBuffer c)) + n"
    using slice_length[OF j(1) _ n(2)] n(1) by (simp add: c1_def)
  show ?thesis
  proof (cases "length (lengthBuffer c1) = 4")
    case False
    then have "int (length (lengthBuffer c1)) \<noteq> 4" by simp
    then have "int (length (lengthBuffer c1)) < 4" using len by (simp add: n_def)
    then have "conn_inv c1" using None mb q by (simp add: conn_inv_def framer_inv_def c1_def)
    moreover have "processData_pass parse c data j = Next None c1 (j + n)"
      using None False by (simp add: processData_pass_def Let_def n_def c1_def read_payload_def)
    ultimately show ?thesis using n by simp
  next
    case True
    define L where "L = readInt32BE (lengthBuffer c1)"
    define c2 where "c2 = c1\<lparr>expectedLength := Some L, lengthBuffer := []\<rparr>"
    show ?thesis
    proof (cases "L \<le> 0 \<or> L > 10 * 1024 * 1024")
      case bad: True
      then have "processData_pass parse c data j =
          Stop (resetBuffers (c2\<lparr>console := console c2 @ [InvalidMessageLength L]\<rparr>))"
        using None True by (simp add: processData_pass_def Let_def n_def c1_def c2_def L_def)
      moreover have "conn_inv (resetBuffers (c2\<lparr>console := console c2 @ [InvalidMessageLength L]\<rparr>))"
        by (rule conn_inv_reset) (simp_all add: c2_def c1_def q)
      ultimately show ?thesis by simp
    next
      case good: False
      then have p: "processData_pass parse c data j = read_payload parse c2 data (j + n)"
        using None True by (simp add: processData_pass_def Let_def n_def c1_def c2_def L_def)
      have "\<exists>p c' j'. read_payload parse c2 data (j + n) = Next p c' j' \<and> conn_inv c' \<and>
          j + n \<le> j' \<and> j' \<le> int (length data) \<and> (j + n < int (length data) \<longrightarrow> j + n < j')"
        by (rule read_payload_inv[where L=L])
          (use good mb q n j in \<open>simp_all add: c2_def c1_def\<close>)
      then show ?thesis using p n by auto
    qed
  qed
qed

lemma loop_inv:
  assumes "conn_inv c" "k \<le> length data"
  shows "\<exists>out c'. processData_loop parse c data (int k) em = Some (out, c') \<and> conn_inv c'"
  using assms
proof (induction "length data - k" arbitrary: c k em rule: less_induct)
  case less
  show ?case
  proof (cases "k < length data")
    case False
    then show ?thesis using less.prems by (simp add: loop_end)
  next
    case True
    then have lt: "int k < int (length data)" by simp
    have pi: "case processData_pass parse c data (int k) of
          Stop c' \<Rightarrow> conn_inv c'
        | Next p c' j' \<Rightarrow> conn_inv c' \<and> int k < j' \<and> j' \<le> int (length data)"
      by (rule pass_inv[OF less.prems(1) _ lt]) simp
    show ?thesis
    proof (cases "processData_pass parse c data (int k)")
      case (Stop c')
      then show ?thesis using lt pi by (simp add: loop_step)
    next
      case (Next p c' j')
      then have i: "conn_inv c'" and b: "int k < j'" "j' \<le> int (length data)"
        using pi by simp_all
      define k' where "k' = nat j'"
      have k': "j' = int k'" "k < k'" "k' \<le> length data" using b by (simp_all add: k'_def)
      have "length data - k' < length data - k" using k' by simp
      from less.hyps[OF this i k'(3)]
      show ?thesis using Next lt k'(1) by (simp add: loop_step)
    qed
  qed
qed

lemma processData_inv:
  assumes "conn_inv c"
  shows "\<exists>out c'. processData parse c data = Some (out, c') \<and> conn_inv c'"
  using loop_inv[OF assms, of 0 data parse "[]"] by (simp add: processData_def)

lemma reachable_inv:
  assumes "reachable parse stringify c"
  shows "conn_inv c"
  using assms
proof (induction rule: reachable.induct)
  case (r_new h p)
  then show ?case by (simp add: conn_inv_def framer_inv_def new_connection_def)
next
  case (r_connect_event c)
  then show ?case by (simp add: conn_inv_def framer_inv_def on_connect_def split: option.splits)
next
  case (r_close_event c)
  then show ?case by (simp add: conn_inv_def framer_inv_def on_close_def split: option.splits)
next
  case (r_error_event c)
  then show ?case by (simp add: conn_inv_def framer_inv_def on_error_def split: option.splits)
next
  case (r_data_event c data out c')
  then show ?case using processData_inv[of c parse data] by auto
next
  case (r_connect c e)
  then show ?case by (simp add: conn_inv_def framer_inv_def connect_def split: option.splits)
next
  case (r_disconnect c)
  then show ?case by (simp add: conn_inv_def framer_inv_def disconnect_def split: option.splits)
next
  case (r_sendCommand c e command params)
  then show ?case
    using generateRequestId_not_default[of e] generateRequestId_nonempty[of e]
    by (auto simp: conn_inv_def framer_inv_def sendCommand_def Let_def connect_def
        split: option.splits)
next
  case (r_timeout c t)
  then show ?case by (simp add: conn_inv_def framer_inv_def timeoutFires_def split: option.splits)
qed

lemma processData_returns:
  assumes "reachable parse stringify c"
  shows "\<exists>out c'. processData parse c data = Some (out, c') \<and> reachable parse stringify c'"
  using processData_inv[OF reachable_inv[OF assms], of parse data] assms
  by (auto intro: r_data_event)

lemma pass_emits_idle:
  assumes "processData_pass parse c0 data offset = Next (Some s) c1 offset1"
  shows "idle c1"
proof -
  have r: "idle c'" if "read_payload parse c data j = Next (Some s) c' j'" for c c' j j'
    using that
    by (auto simp: read_payload_def Let_def idle_def resetBuffers_def
        split: option.splits if_splits)
  show ?thesis using assms
    by (auto simp: processData_pass_def Let_def split: if_splits dest: r)
qed


text \<open>
  Claim C9 (the two accumulators). On every connection the class can be in between two
  calls of \<open>processData\<close>, one stage is active: either no expected length is set, the
  length accumulator holds at most three bytes and the payload accumulator is empty, or
  an expected length \<open>L\<close> is set, the length accumulator is empty and the payload
  accumulator holds fewer than \<open>L\<close> bytes. A call of \<open>processData\<close> on such a connection
  returns, whatever the chunk, and the condition holds again. And whenever a pass of the
  loop, from any state, hands a payload to \<open>handleResponse\<close>, it leaves both accumulators
  empty and no expected length set.
\<close>

theorem two_stage_accumulator:
  assumes "reachable parse stringify c"
  shows "framer_inv c \<and>
    (\<exists>out c'. processData parse c data = Some (out, c') \<and> framer_inv c') \<and>
    (\<forall>c0 chunk offset s c1 offset1.
       processData_pass parse c0 chunk offset = Next (Some s) c1 offset1 \<longrightarrow> idle c1)"
proof -
  have "conn_inv c" using assms by (rule reachable_inv)
  moreover from this obtain out c' where "processData parse c data = Some (out, c')" "conn_inv c'"
    using processData_inv[of c parse data] by blast
  ultimately show ?thesis using pass_emits_idle by (auto simp: conn_inv_def)
qed

theorem two_stage_accumulator_witness:
  "reachable example_parse example_stringify example_connection \<and>
   framer_inv example_connection \<and>
   (\<exists>out c'. processData example_parse example_connection [0, 0, 0, 52, 123] = Some (out, c') \<and>
      framer_inv c')"
  using two_stage_accumulator[OF example_reachable, of "[0, 0, 0, 52, 123]"] example_reachable
  by simp




end
